theory Spec2Isabelle
  imports Complex_Main "HOL-Library.Multiset"
begin

section \<open>Data model\<close>

text \<open>
  A MIDI message as the program sees it (a mido \<open>Message\<close> or \<open>MetaMessage\<close>): the type,
  the fields the program reads, and \<open>time\<close> (delta ticks in a file, 0 for a message built by
  the program). Argument order: channel, then the data fields, then time.
  \<open>OtherMsg\<close> stands for every message type the program does not look at.
\<close>

datatype midi_msg =
    NoteOn int int int nat
  | NoteOff int int int nat
  | ControlChange int int int nat
  | Aftertouch int int nat
  | Pitchwheel int int nat
  | SetTempo int nat
  | OtherMsg nat

fun msg_time :: "midi_msg \<Rightarrow> nat" where
  "msg_time (NoteOn c n v t) = t"
| "msg_time (NoteOff c n v t) = t"
| "msg_time (ControlChange c k v t) = t"
| "msg_time (Aftertouch c v t) = t"
| "msg_time (Pitchwheel c p t) = t"
| "msg_time (SetTempo u t) = t"
| "msg_time (OtherMsg t) = t"

text \<open>
  An OSC argument. The program only ever applies Python's \<open>int()\<close> to it, so an argument
  that is not an integer (float, string, boolean, blob, nil) is carried as what \<open>int()\<close>
  yields for it: \<open>Some i\<close>, or \<open>None\<close> when \<open>int()\<close> raises.
\<close>

datatype osc_arg = ArgInt int | ArgOther "int option"

datatype py_exn = IndexError | ConversionError | ValueError | AttributeError | ZeroDivisionError

text \<open>
  An entry of \<open>sent_messages\<close> is the tuple (address, args, kind, time.time()).
  A clock reading is a double, which is a real number: times are the reals the readings
  denote, in seconds.
\<close>

type_synonym sent_record = "string \<times> osc_arg list \<times> string \<times> real"

definition emitted_at :: "sent_record \<Rightarrow> real" where
  "emitted_at r = snd (snd (snd r))"

text \<open>One constructor for each text that \<open>log_message\<close> is given in the modelled functions.\<close>

datatype log_entry =
    LogOscToMidi midi_msg
  | LogInvalidCC string
  | LogUnhandled string
  | LogError string py_exn
  | LogInvalidAddress string
  | LogMidiToOsc string int
  | LogTestNote string int
  | LogClientMissing
  | LogNoFilesToSkip
  | LogNoFilesToSkipBack
  | LogSkipForward int
  | LogSkipBack int
  | LogNoFilesToPlay
  | LogPlaybackStarted
  | LogPlaybackInProgress
  | LogInvalidTempo
  | LogTempoChanged int
  | LogTempoReset int string
  | LogNoTempoEvent
  | LogResetError
  | LogNoPlaylist
  | LogPlayed string int
  | LogPlaylistEnded

text \<open>
  The fields of \<open>OSCMIDIApp\<close> that the modelled functions read or write.
  \<open>osc_client\<close> and \<open>midi_out\<close> are \<open>None\<close> or a handle, modelled by what has been sent
  through it so far; \<open>tempo_slider\<close> is the value the slider widget holds;
  \<open>thread_alive\<close> says whether the player thread started by \<open>play\<close> is still running.
\<close>

record app_state =
  playing :: bool
  looping :: bool
  tempo :: int
  tempo_microseconds_per_beat :: real
  paused :: bool
  request_stop :: bool
  midi_playlist :: "string list"
  current_playlist_index :: int
  sent_messages :: "sent_record list"
  osc_client :: "(string \<times> int) list option"
  midi_out :: "midi_msg list option"
  tempo_slider :: int
  thread_alive :: bool
  log_lines :: "log_entry list"

definition log_message :: "log_entry \<Rightarrow> app_state \<Rightarrow> app_state" where
  "log_message e s = s\<lparr>log_lines := log_lines s @ [e]\<rparr>"

section \<open>The history buffer\<close>

text \<open>\<open>deque(maxlen=100).append\<close>: append on the right, then discard from the left when full.\<close>

definition deque_append :: "'a \<Rightarrow> 'a list \<Rightarrow> 'a list" where
  "deque_append x xs = (let ys = xs @ [x] in if length ys > 100 then tl ys else ys)"

text \<open>
  The sweep loop
  \<^verbatim>\<open>while self.sent_messages and (current_time - self.sent_messages[0][3] > 0.1): popleft()\<close>
\<close>

fun evict :: "real \<Rightarrow> sent_record list \<Rightarrow> sent_record list" where
  "evict current_time [] = []"
| "evict current_time (r # rs) =
     (if current_time - emitted_at r > 0.1 then evict current_time rs else r # rs)"

definition cleanup_sent_messages :: "real \<Rightarrow> app_state \<Rightarrow> app_state" where
  "cleanup_sent_messages current_time s =
     s\<lparr>sent_messages := evict current_time (sent_messages s)\<rparr>"

section \<open>Decimal text\<close>

definition is_digit :: "char \<Rightarrow> bool" where
  "is_digit c = ((48::nat) \<le> of_char c \<and> of_char c \<le> (57::nat))"

definition digit_char :: "nat \<Rightarrow> char" where
  "digit_char d = char_of (48 + d)"

definition digit_val :: "char \<Rightarrow> nat" where
  "digit_val c = of_char c - 48"

text \<open>What an f-string prints for an integer.\<close>

fun str_nat :: "nat \<Rightarrow> string" where
  "str_nat n = (if n < 10 then [digit_char n] else str_nat (n div 10) @ [digit_char (n mod 10)])"

declare str_nat.simps [simp del]

definition py_str :: "int \<Rightarrow> string" where
  "py_str i = (if i < 0 then CHR ''-'' # str_nat (nat (- i)) else str_nat (nat i))"

text \<open>\<open>int()\<close> of a string of decimal digits.\<close>

definition int_of_digits :: "string \<Rightarrow> int" where
  "int_of_digits ds = int (foldl (\<lambda>a c. 10 * a + digit_val c) 0 ds)"

section \<open>The dispatcher callback\<close>

text \<open>
  \<^verbatim>\<open>re.match(r"/ch(\d+)(note|noff|cc(\d+)|pressure|pitch)", address)\<close>:
  a match at the start of the address, with anything allowed after it. The result is the
  groups 1, 2 and 3. Each alternative starts with a letter, so the greedy \<open>\d+\<close> takes the
  whole run of digits and backtracking into it cannot help.
\<close>

definition re_match :: "string \<Rightarrow> (string \<times> string \<times> string option) option" where
  "re_match address =
     (if take 3 address = ''/ch'' then
        (let g1 = takeWhile is_digit (drop 3 address);
             r = dropWhile is_digit (drop 3 address);
             g3 = takeWhile is_digit (drop 2 r)
         in if g1 = [] then None
            else if take 4 r = ''note'' then Some (g1, ''note'', None)
            else if take 4 r = ''noff'' then Some (g1, ''noff'', None)
            else if take 2 r = ''cc'' \<and> g3 \<noteq> [] then Some (g1, ''cc'' @ g3, Some g3)
            else if take 8 r = ''pressure'' then Some (g1, ''pressure'', None)
            else if take 5 r = ''pitch'' then Some (g1, ''pitch'', None)
            else None)
      else None)"

definition then_do :: "py_exn + 'a \<Rightarrow> ('a \<Rightarrow> py_exn + 'b) \<Rightarrow> py_exn + 'b" where
  "then_do r f = (case r of Inl e \<Rightarrow> Inl e | Inr x \<Rightarrow> f x)"

text \<open>\<open>int(args[0])\<close>: IndexError on an empty tuple, else Python's \<open>int()\<close>.\<close>

definition int_arg0 :: "osc_arg list \<Rightarrow> py_exn + int" where
  "int_arg0 args =
     (case args of
        [] \<Rightarrow> Inl IndexError
      | ArgInt i # _ \<Rightarrow> Inr i
      | ArgOther None # _ \<Rightarrow> Inl ConversionError
      | ArgOther (Some i) # _ \<Rightarrow> Inr i)"

text \<open>
  The checks of mido's \<open>Message\<close> constructor: a channel is 0..15, a data byte 0..127,
  a pitch -8192..8191; anything else raises.
\<close>

definition check_channel :: "int \<Rightarrow> bool" where
  "check_channel c = (0 \<le> c \<and> c \<le> 15)"

definition check_data_byte :: "int \<Rightarrow> bool" where
  "check_data_byte v = (0 \<le> v \<and> v \<le> 127)"

definition check_pitch :: "int \<Rightarrow> bool" where
  "check_pitch p = (- 8192 \<le> p \<and> p \<le> 8191)"

definition Message_note_on :: "int \<Rightarrow> int \<Rightarrow> int \<Rightarrow> py_exn + midi_msg" where
  "Message_note_on c n v =
     (if check_channel c \<and> check_data_byte n \<and> check_data_byte v
      then Inr (NoteOn c n v 0) else Inl ValueError)"

definition Message_note_off :: "int \<Rightarrow> int \<Rightarrow> int \<Rightarrow> py_exn + midi_msg" where
  "Message_note_off c n v =
     (if check_channel c \<and> check_data_byte n \<and> check_data_byte v
      then Inr (NoteOff c n v 0) else Inl ValueError)"

definition Message_control_change :: "int \<Rightarrow> int \<Rightarrow> int \<Rightarrow> py_exn + midi_msg" where
  "Message_control_change c k v =
     (if check_channel c \<and> check_data_byte k \<and> check_data_byte v
      then Inr (ControlChange c k v 0) else Inl ValueError)"

definition Message_aftertouch :: "int \<Rightarrow> int \<Rightarrow> py_exn + midi_msg" where
  "Message_aftertouch c v =
     (if check_channel c \<and> check_data_byte v then Inr (Aftertouch c v 0) else Inl ValueError)"

definition Message_pitchwheel :: "int \<Rightarrow> int \<Rightarrow> py_exn + midi_msg" where
  "Message_pitchwheel c p =
     (if check_channel c \<and> check_pitch p then Inr (Pitchwheel c p 0) else Inl ValueError)"

text \<open>
  The three statements that follow the construction of the message in every branch:
  \<open>self.midi_out.send(m)\<close> (AttributeError when no output is open), the log line, and the
  append to the history buffer, stamped with a fresh reading \<open>t\<close> of the clock.
\<close>

definition send_and_record ::
  "real \<Rightarrow> string \<Rightarrow> osc_arg list \<Rightarrow> string \<Rightarrow> midi_msg \<Rightarrow> app_state \<Rightarrow> py_exn + app_state" where
  "send_and_record t address args kind m s =
     (case midi_out s of
        None \<Rightarrow> Inl AttributeError
      | Some out \<Rightarrow>
          Inr (s\<lparr>midi_out := Some (out @ [m]),
                 log_lines := log_lines s @ [LogOscToMidi m],
                 sent_messages := deque_append (address, args, kind, t) (sent_messages s)\<rparr>))"

text \<open>The body of the \<open>try\<close> block.\<close>

definition osc_to_midi ::
  "real \<Rightarrow> string \<Rightarrow> osc_arg list \<Rightarrow> int \<Rightarrow> string \<Rightarrow> string option \<Rightarrow> app_state
     \<Rightarrow> py_exn + app_state" where
  "osc_to_midi t address args channel command cc_num s =
     (if command = ''note'' then
        then_do (int_arg0 args) (\<lambda>note.
        then_do (Message_note_on channel note 100) (\<lambda>m.
        send_and_record t address args ''note_on'' m s))
      else if command = ''noff'' then
        then_do (int_arg0 args) (\<lambda>note.
        then_do (Message_note_off channel note 0) (\<lambda>m.
        send_and_record t address args ''note_off'' m s))
      else if take 2 command = ''cc'' then
        (case cc_num of
           Some ds \<Rightarrow>
             then_do (int_arg0 args) (\<lambda>v.
             then_do (Message_control_change channel (int_of_digits ds) v) (\<lambda>m.
             send_and_record t address args ''control_change'' m s))
         | None \<Rightarrow> Inr (log_message (LogInvalidCC address) s))
      else if command = ''pressure'' then
        then_do (int_arg0 args) (\<lambda>v.
        then_do (Message_aftertouch channel v) (\<lambda>m.
        send_and_record t address args ''aftertouch'' m s))
      else if command = ''pitch'' then
        then_do (int_arg0 args) (\<lambda>p.
        then_do (Message_pitchwheel channel p) (\<lambda>m.
        send_and_record t address args ''pitchwheel'' m s))
      else Inr (log_message (LogUnhandled command) s))"

text \<open>
  \<open>handle_osc_message\<close>. \<open>current_time\<close> is the clock reading taken on entry and used by the
  sweep, \<open>t\<close> the later reading that stamps the appended record. The result is \<open>Inl e\<close>
  when exception \<open>e\<close> leaves the callback and \<open>Inr s'\<close> when it returns with state \<open>s'\<close>.
\<close>

definition handle_osc_message ::
  "real \<Rightarrow> real \<Rightarrow> string \<Rightarrow> osc_arg list \<Rightarrow> app_state \<Rightarrow> py_exn + app_state" where
  "handle_osc_message current_time t address args s =
     (let s1 = s\<lparr>sent_messages := evict current_time (sent_messages s)\<rparr>
      in case re_match address of
           Some (g1, command, cc_num) \<Rightarrow>
             (let channel = int_of_digits g1 - 1
              in if paused s1 then Inr s1
                 else (case osc_to_midi t address args channel command cc_num s1 of
                         Inr s2 \<Rightarrow> Inr s2
                       | Inl e \<Rightarrow> Inr (log_message (LogError address e) s1)))
         | None \<Rightarrow> Inr (log_message (LogInvalidAddress address) s1))"

section \<open>The initial state\<close>

text \<open>The fields as \<open>__init__\<close> sets them; the slider is created with the value of \<open>tempo\<close>.\<close>

definition init_state :: app_state where
  "init_state =
     \<lparr>playing = False, looping = False, tempo = 120, tempo_microseconds_per_beat = 500000,
      paused = False, request_stop = False, midi_playlist = [], current_playlist_index = 0,
      sent_messages = [], osc_client = None, midi_out = None, tempo_slider = 120,
      thread_alive = False, log_lines = []\<rparr>"

section \<open>From MIDI to OSC: the listener and the player\<close>

text \<open>
  The branches shared by \<open>run_midi_input\<close> and \<open>_play_single_midi\<close>: the address, the
  single argument and the kind recorded for a message, or \<open>None\<close> when no branch sends.
  The address carries the channel plus one.
\<close>

fun midi_to_osc :: "midi_msg \<Rightarrow> (string \<times> int \<times> string) option" where
  "midi_to_osc (NoteOn c n v t) =
     (if v > 0 then Some (''/ch'' @ py_str (c + 1) @ ''note'', n, ''note_on'')
      else if v = 0 then Some (''/ch'' @ py_str (c + 1) @ ''noff'', n, ''note_off'')
      else None)"
| "midi_to_osc (NoteOff c n v t) = Some (''/ch'' @ py_str (c + 1) @ ''noff'', n, ''note_off'')"
| "midi_to_osc (ControlChange c k v t) =
     Some (''/ch'' @ py_str (c + 1) @ ''cc'' @ py_str k, v, ''control_change'')"
| "midi_to_osc (Aftertouch c v t) =
     Some (''/ch'' @ py_str (c + 1) @ ''pressure'', v, ''aftertouch'')"
| "midi_to_osc (Pitchwheel c p t) =
     Some (''/ch'' @ py_str (c + 1) @ ''pitch'', p, ''pitchwheel'')"
| "midi_to_osc (SetTempo u t) = None"
| "midi_to_osc (OtherMsg t) = None"

text \<open>
  One message handled by either loop: \<open>osc_client.send_message\<close> (AttributeError when the
  client is \<open>None\<close>), the log line, and the append to the history buffer stamped with the
  clock reading \<open>t\<close>. The two loops differ only in the text they log.
\<close>

definition translate_and_send ::
  "(string \<Rightarrow> int \<Rightarrow> log_entry) \<Rightarrow> real \<Rightarrow> midi_msg \<Rightarrow> app_state \<Rightarrow> py_exn + app_state" where
  "translate_and_send line t msg s =
     (case midi_to_osc msg of
        None \<Rightarrow> Inr s
      | Some (address, v, kind) \<Rightarrow>
          (case osc_client s of
             None \<Rightarrow> Inl AttributeError
           | Some out \<Rightarrow>
               Inr (s\<lparr>osc_client := Some (out @ [(address, v)]),
                      log_lines := log_lines s @ [line address v],
                      sent_messages :=
                        deque_append (address, [ArgInt v], kind, t) (sent_messages s)\<rparr>)))"

definition run_midi_input_msg :: "real \<Rightarrow> midi_msg \<Rightarrow> app_state \<Rightarrow> py_exn + app_state" where
  "run_midi_input_msg = translate_and_send LogMidiToOsc"

definition play_single_midi_msg :: "real \<Rightarrow> midi_msg \<Rightarrow> app_state \<Rightarrow> py_exn + app_state" where
  "play_single_midi_msg = translate_and_send LogPlayed"

definition send_test_note :: "real \<Rightarrow> int \<Rightarrow> app_state \<Rightarrow> app_state" where
  "send_test_note t chan s =
     (case osc_client s of
        None \<Rightarrow> log_message LogClientMissing s
      | Some out \<Rightarrow>
          s\<lparr>osc_client := Some (out @ [(''/ch'' @ py_str chan @ ''note'', 60)]),
            log_lines := log_lines s @ [LogTestNote (''/ch'' @ py_str chan @ ''note'') 60],
            sent_messages :=
              deque_append (''/ch'' @ py_str chan @ ''note'', [ArgInt 60], ''note_on'', t)
                (sent_messages s)\<rparr>)"

text \<open>What mido guarantees of a channel message it hands to the program.\<close>

fun valid_msg :: "midi_msg \<Rightarrow> bool" where
  "valid_msg (NoteOn c n v t) = (check_channel c \<and> check_data_byte n \<and> check_data_byte v)"
| "valid_msg (NoteOff c n v t) = (check_channel c \<and> check_data_byte n \<and> check_data_byte v)"
| "valid_msg (ControlChange c k v t) =
     (check_channel c \<and> check_data_byte k \<and> check_data_byte v)"
| "valid_msg (Aftertouch c v t) = (check_channel c \<and> check_data_byte v)"
| "valid_msg (Pitchwheel c p t) = (check_channel c \<and> check_pitch p)"
| "valid_msg (SetTempo u t) = False"
| "valid_msg (OtherMsg t) = False"

text \<open>
  When the message the dispatcher sends counts as equivalent to the one the listener
  translated: the same kind, the same channel and the same note, controller and value, or
  pitch; the time is not compared. The address carries no velocity: a sounding note comes
  back with velocity 100, and a note-on of velocity 0 comes back as the note-off, of
  velocity 0, that it stands for.
\<close>

fun equivalent_event :: "midi_msg \<Rightarrow> midi_msg \<Rightarrow> bool" where
  "equivalent_event (NoteOn c n v t) m =
     (if v > 0 then m = NoteOn c n 100 0 else m = NoteOff c n 0 0)"
| "equivalent_event (NoteOff c n v t) m = (m = NoteOff c n 0 0)"
| "equivalent_event (ControlChange c k v t) m = (m = ControlChange c k v 0)"
| "equivalent_event (Aftertouch c v t) m = (m = Aftertouch c v 0)"
| "equivalent_event (Pitchwheel c p t) m = (m = Pitchwheel c p 0)"
| "equivalent_event (SetTempo u t) m = False"
| "equivalent_event (OtherMsg t) m = False"

section \<open>Operations on the history buffer, in sequence\<close>

text \<open>
  Everything that touches \<open>sent_messages\<close>, with the clock readings it takes: the dispatcher
  callback (one reading for its sweep, a later one for the record), a message of the
  listener, a message of the player, the test note, and the timer's sweep.
\<close>

datatype event =
    OscIn real real string "osc_arg list"
  | MidiIn real midi_msg
  | Played real midi_msg
  | TestNote real int
  | Sweep real

fun event_times :: "event \<Rightarrow> real list" where
  "event_times (OscIn current_time t address args) = [current_time, t]"
| "event_times (MidiIn t msg) = [t]"
| "event_times (Played t msg) = [t]"
| "event_times (TestNote t chan) = [t]"
| "event_times (Sweep current_time) = [current_time]"

fun sweep_time :: "event \<Rightarrow> real option" where
  "sweep_time (OscIn current_time t address args) = Some current_time"
| "sweep_time (Sweep current_time) = Some current_time"
| "sweep_time (MidiIn t msg) = None"
| "sweep_time (Played t msg) = None"
| "sweep_time (TestNote t chan) = None"

text \<open>An exception raised before anything was changed leaves the state as it was.\<close>

definition state_after :: "py_exn + app_state \<Rightarrow> app_state \<Rightarrow> app_state" where
  "state_after r s = (case r of Inl e \<Rightarrow> s | Inr s' \<Rightarrow> s')"

fun apply_event :: "event \<Rightarrow> app_state \<Rightarrow> app_state" where
  "apply_event (OscIn current_time t address args) s =
     state_after (handle_osc_message current_time t address args s) s"
| "apply_event (MidiIn t msg) s = state_after (run_midi_input_msg t msg s) s"
| "apply_event (Played t msg) s = state_after (play_single_midi_msg t msg s) s"
| "apply_event (TestNote t chan) s = send_test_note t chan s"
| "apply_event (Sweep current_time) s = cleanup_sent_messages current_time s"

fun run_events :: "event list \<Rightarrow> app_state \<Rightarrow> app_state" where
  "run_events [] s = s"
| "run_events (e # es) s = run_events es (apply_event e s)"

section \<open>The player: merging the tracks\<close>

text \<open>
  The inner loop over one track: \<open>abs_time += msg.time\<close>, then the pair is appended.
\<close>

fun abs_times :: "nat \<Rightarrow> midi_msg list \<Rightarrow> (nat \<times> midi_msg) list" where
  "abs_times abs_time [] = []"
| "abs_times abs_time (msg # track) =
     (abs_time + msg_time msg, msg) # abs_times (abs_time + msg_time msg) track"

text \<open>
  The list \<open>messages\<close> of \<open>_play_single_midi\<close> before and after
  \<open>messages.sort(key=lambda x: x[0])\<close>. Python's sort is stable, as \<open>sort_key\<close> is, and a
  stable sort has one possible result.
\<close>

definition collected_messages :: "midi_msg list list \<Rightarrow> (nat \<times> midi_msg) list" where
  "collected_messages tracks = concat (map (abs_times 0) tracks)"

definition merged_messages :: "midi_msg list list \<Rightarrow> (nat \<times> midi_msg) list" where
  "merged_messages tracks = sort_key fst (collected_messages tracks)"

section \<open>Tempo\<close>

text \<open>
  Python computes \<open>60000000 / n\<close> on doubles. The rounding to the nearest double is taken as
  a parameter \<open>fl\<close>, of which only two facts of IEEE 754 binary64 are used: between 1 and
  2^53 the rounded value is within a relative 2^-53 of the exact one, and an integer up to
  2^53 is represented exactly.
\<close>

definition double_rounding :: "(real \<Rightarrow> real) \<Rightarrow> bool" where
  "double_rounding fl =
     ((\<forall>x. 1 \<le> x \<and> x \<le> 2 ^ 53 \<longrightarrow> \<bar>fl x - x\<bar> \<le> x / 2 ^ 53)
      \<and> (\<forall>k::int. 0 \<le> k \<and> k \<le> 2 ^ 53 \<longrightarrow> fl (real_of_int k) = real_of_int k))"

text \<open>
  A rounding that does at 3000000 / 7 (the quotient for 140 BPM) what binary64 does: the
  nearest double is 7362801078857143 / 2^34, printed 428571.4285714286.
\<close>

definition rounding_at_140 :: "real \<Rightarrow> real" where
  "rounding_at_140 x = (if x = 3000000 / 7 then 7362801078857143 / 17179869184 else x)"

definition change_tempo :: "(real \<Rightarrow> real) \<Rightarrow> int \<Rightarrow> app_state \<Rightarrow> app_state" where
  "change_tempo fl new_tempo s =
     (if new_tempo \<le> 0 then log_message LogInvalidTempo s
      else log_message (LogTempoChanged new_tempo)
             (s\<lparr>tempo := new_tempo,
                tempo_microseconds_per_beat := fl (60000000 / real_of_int new_tempo)\<rparr>))"

text \<open>The slot of the slider's \<open>valueChanged\<close> signal (the label's text is not modelled).\<close>

definition update_tempo_display :: "(real \<Rightarrow> real) \<Rightarrow> int \<Rightarrow> app_state \<Rightarrow> app_state" where
  "update_tempo_display fl v s = change_tempo fl v s"

text \<open>
  \<open>self.tempo_slider.setValue(v)\<close>. The slider was given the range 20..420 and its
  \<open>valueChanged\<close> signal was connected to \<open>update_tempo_display\<close>: the widget bounds the
  value to its range and, when that differs from the value it holds, stores it and calls
  the slot with it.
\<close>

definition tempo_slider_setValue :: "(real \<Rightarrow> real) \<Rightarrow> int \<Rightarrow> app_state \<Rightarrow> app_state" where
  "tempo_slider_setValue fl v s =
     (let b = max 20 (min 420 v)
      in if b = tempo_slider s then s
         else update_tempo_display fl b (s\<lparr>tempo_slider := b\<rparr>))"

text \<open>The first \<open>set_tempo\<close> message of a track, and of the tracks in their order.\<close>

fun track_tempo :: "midi_msg list \<Rightarrow> int option" where
  "track_tempo [] = None"
| "track_tempo (SetTempo u t # track) = Some u"
| "track_tempo (msg # track) = track_tempo track"

fun first_tempo :: "midi_msg list list \<Rightarrow> int option" where
  "first_tempo [] = None"
| "first_tempo (track # tracks) =
     (case track_tempo track of Some u \<Rightarrow> Some u | None \<Rightarrow> first_tempo tracks)"

text \<open>\<open>int(x)\<close> of a float: the integer part, cut towards zero.\<close>

definition int_of_float :: "real \<Rightarrow> int" where
  "int_of_float x = (if 0 \<le> x then \<lfloor>x\<rfloor> else \<lceil>x\<rceil>)"

text \<open>
  \<open>reset_tempo\<close>. \<open>load\<close> stands for \<open>MidiFile(path)\<close>: the tracks of the file, or \<open>None\<close>
  when reading it raises. \<open>int(60000000 / msg.tempo)\<close> raises ZeroDivisionError, after the
  assignment before it, for a tempo of 0; every exception is caught and logged.
\<close>

definition reset_tempo ::
  "(real \<Rightarrow> real) \<Rightarrow> (string \<Rightarrow> midi_msg list list option) \<Rightarrow> app_state \<Rightarrow> app_state" where
  "reset_tempo fl load s =
     (case midi_playlist s of
        [] \<Rightarrow> log_message LogNoPlaylist s
      | first_path # _ \<Rightarrow>
          (case load first_path of
             None \<Rightarrow> log_message LogResetError s
           | Some tracks \<Rightarrow>
               (case first_tempo tracks of
                  Some u \<Rightarrow>
                    (let s1 = s\<lparr>tempo_microseconds_per_beat := real_of_int u\<rparr>
                     in if u = 0 then log_message LogResetError s1
                        else (let s2 = s1\<lparr>tempo := int_of_float (fl (60000000 / real_of_int u))\<rparr>;
                                  s3 = tempo_slider_setValue fl (tempo s2) s2
                              in log_message (LogTempoReset (tempo s3) first_path) s3))
                | None \<Rightarrow>
                    (let s1 = log_message LogNoTempoEvent s;
                         s2 = s1\<lparr>tempo := 120, tempo_microseconds_per_beat := 500000\<rparr>
                     in tempo_slider_setValue fl (tempo s2) s2))))"

section \<open>Playlist navigation\<close>

definition play :: "app_state \<Rightarrow> app_state" where
  "play s =
     (if midi_playlist s = [] then log_message LogNoFilesToPlay s
      else if \<not> playing s then
        (log_message LogPlaybackStarted (s\<lparr>playing := True, request_stop := False\<rparr>))
          \<lparr>thread_alive := True\<rparr>
      else log_message LogPlaybackInProgress s)"

text \<open>
  The statements of \<open>_play_playlist\<close> after its loop, which the player thread runs on its
  way out once it has seen \<open>request_stop\<close> or \<open>playing\<close> change.
\<close>

definition play_playlist_exit :: "app_state \<Rightarrow> app_state" where
  "play_playlist_exit s =
     (log_message LogPlaylistEnded s)
       \<lparr>current_playlist_index := 0, playing := False, paused := False,
        thread_alive := False\<rparr>"

text \<open>
  \<open>if hasattr(self, 'thread') and self.thread.is_alive(): self.thread.join(timeout=0.2)\<close>.
  \<open>exits\<close> says whether a running player thread ends within the timeout; when it does,
  the join returns after the thread has run its last statements.
\<close>

definition join_thread :: "bool \<Rightarrow> app_state \<Rightarrow> app_state" where
  "join_thread exits s = (if thread_alive s \<and> exits then play_playlist_exit s else s)"

definition skip_forward :: "bool \<Rightarrow> app_state \<Rightarrow> app_state" where
  "skip_forward exits s =
     (if midi_playlist s = [] then log_message LogNoFilesToSkip s
      else (let s1 = s\<lparr>request_stop := True, playing := False, paused := False\<rparr>;
                s2 = join_thread exits s1;
                s3 = s2\<lparr>current_playlist_index :=
                          (current_playlist_index s2 + 1) mod int (length (midi_playlist s2))\<rparr>;
                s4 = log_message (LogSkipForward (current_playlist_index s3)) s3
            in play s4))"

definition skip_back :: "bool \<Rightarrow> app_state \<Rightarrow> app_state" where
  "skip_back exits s =
     (if midi_playlist s = [] then log_message LogNoFilesToSkipBack s
      else (let s1 = s\<lparr>request_stop := True, playing := False, paused := False\<rparr>;
                s2 = join_thread exits s1;
                s3 = s2\<lparr>current_playlist_index :=
                          (current_playlist_index s2 - 1) mod int (length (midi_playlist s2))\<rparr>;
                s4 = log_message (LogSkipBack (current_playlist_index s3)) s3
            in play s4))"

section \<open>The dispatcher callback and the history buffer\<close>

lemma send_and_record_history:
  "map_sum id midi_out (send_and_record t a args k m (s\<lparr>sent_messages := h\<rparr>))
   = map_sum id midi_out (send_and_record t a args k m s)"
  by (simp add: send_and_record_def split: option.splits)

lemma osc_to_midi_history:
  "map_sum id midi_out (osc_to_midi t a args ch cmd cc (s\<lparr>sent_messages := h\<rparr>))
   = map_sum id midi_out (osc_to_midi t a args ch cmd cc s)"
  unfolding osc_to_midi_def then_do_def
  by (simp add: send_and_record_history log_message_def split: sum.split option.split)

lemma caught_history:
  assumes "map_sum id midi_out A = map_sum id midi_out B" "midi_out s1 = midi_out s2"
  shows "map_sum id midi_out
           (case A of Inl e \<Rightarrow> Inr (log_message (L e) s1) | Inr x \<Rightarrow> Inr x)
       = map_sum id midi_out
           (case B of Inl e \<Rightarrow> Inr (log_message (L e) s2) | Inr x \<Rightarrow> Inr x)"
  using assms by (cases A; cases B) (simp_all add: log_message_def)

lemma handle_osc_message_history:
  "map_sum id midi_out (handle_osc_message ct t address args (s\<lparr>sent_messages := h\<rparr>))
   = map_sum id midi_out (handle_osc_message ct t address args s)"
proof (cases "re_match address")
  case None
  then show ?thesis by (simp add: handle_osc_message_def log_message_def)
next
  case (Some g)
  obtain g1 command cc_num where g: "g = (g1, command, cc_num)" by (cases g) auto
  let ?s1 = "s\<lparr>sent_messages := evict ct h\<rparr>"
  let ?s2 = "s\<lparr>sent_messages := evict ct (sent_messages s)\<rparr>"
  let ?run = "osc_to_midi t address args (int_of_digits g1 - 1) command cc_num"
  have "map_sum id midi_out (?run ?s1) = map_sum id midi_out (?run ?s2)"
    by (simp only: osc_to_midi_history)
  from caught_history[OF this, of ?s1 ?s2 "LogError address"]
  have eq: "map_sum id midi_out
              (case ?run ?s1 of Inl e \<Rightarrow> Inr (log_message (LogError address e) ?s1)
               | Inr x \<Rightarrow> Inr x)
          = map_sum id midi_out
              (case ?run ?s2 of Inl e \<Rightarrow> Inr (log_message (LogError address e) ?s2)
               | Inr x \<Rightarrow> Inr x)"
    by simp
  show ?thesis
  proof (cases "paused s")
    case True
    then show ?thesis using Some g by (simp add: handle_osc_message_def Let_def)
  next
    case False
    have l: "handle_osc_message ct t address args (s\<lparr>sent_messages := h\<rparr>) =
        (case ?run ?s1 of Inl e \<Rightarrow> Inr (log_message (LogError address e) ?s1)
         | Inr x \<Rightarrow> Inr x)"
      using False Some g by (simp add: handle_osc_message_def Let_def)
    have r: "handle_osc_message ct t address args s =
        (case ?run ?s2 of Inl e \<Rightarrow> Inr (log_message (LogError address e) ?s2)
         | Inr x \<Rightarrow> Inr x)"
      using False Some g by (simp add: handle_osc_message_def Let_def)
    show ?thesis unfolding l r by (rule eq)
  qed
qed

text \<open>
  Claim C6. The history buffer is passive. Two runs of the dispatcher callback on the same
  message, with the same clock readings and from states that differ only in the records the
  history buffer holds, end the same way (both return, or both raise the same exception)
  and leave the same musical output: the buffer is pruned and appended to, never consulted.
\<close>

theorem history_buffer_is_passive:
  "map_sum id midi_out
     (handle_osc_message current_time t address args (s\<lparr>sent_messages := h1\<rparr>))
   = map_sum id midi_out
     (handle_osc_message current_time t address args (s\<lparr>sent_messages := h2\<rparr>))"
  by (simp only: handle_osc_message_history)

lemma evict_drop: "\<exists>k. evict ct rs = drop k rs"
proof (induction rs)
  case Nil
  then show ?case by simp
next
  case (Cons r rs)
  then obtain k where k: "evict ct rs = drop k rs" by blast
  show ?case
  proof (cases "ct - emitted_at r > 0.1")
    case True
    then have "evict ct (r # rs) = drop (Suc k) (r # rs)" using k by simp
    then show ?thesis by blast
  next
    case False
    then have "evict ct (r # rs) = drop 0 (r # rs)" by simp
    then show ?thesis by blast
  qed
qed

lemma re_match_ch1note: "re_match ''/ch1note'' = Some (''1'', ''note'', None)"
  by (simp add: re_match_def is_digit_def Let_def)

text \<open>
  Claim C4. A message whose address matched, arriving while the pause flag is set, is
  dropped at the pause check: the callback returns the state that the sweep alone leaves.
  Nothing is sent to the MIDI output, the history buffer only lost evicted records (none was
  appended), no line is logged, and no other field changes, so nothing is kept for later.
\<close>

theorem paused_message_is_dropped:
  assumes "paused s" and "re_match address = Some g"
  shows "handle_osc_message current_time t address args s
           = Inr (cleanup_sent_messages current_time s)
       \<and> midi_out (cleanup_sent_messages current_time s) = midi_out s
       \<and> log_lines (cleanup_sent_messages current_time s) = log_lines s
       \<and> (\<exists>k. sent_messages (cleanup_sent_messages current_time s)
                 = drop k (sent_messages s))"
proof -
  obtain g1 command cc_num where g: "g = (g1, command, cc_num)" by (cases g) auto
  have "handle_osc_message current_time t address args s
          = Inr (cleanup_sent_messages current_time s)"
    using assms g by (simp add: handle_osc_message_def cleanup_sent_messages_def Let_def)
  moreover have "\<exists>k. sent_messages (cleanup_sent_messages current_time s)
                       = drop k (sent_messages s)"
    using evict_drop[of current_time "sent_messages s"] by (simp add: cleanup_sent_messages_def)
  ultimately show ?thesis by (simp add: cleanup_sent_messages_def)
qed

theorem paused_message_is_dropped_witness:
  "paused (init_state\<lparr>paused := True, midi_out := Some []\<rparr>)
   \<and> re_match ''/ch1note'' = Some (''1'', ''note'', None)
   \<and> handle_osc_message 1 1 ''/ch1note'' [ArgInt 60]
         (init_state\<lparr>paused := True, midi_out := Some []\<rparr>)
       = Inr (init_state\<lparr>paused := True, midi_out := Some []\<rparr>)"
proof -
  have p: "paused (init_state\<lparr>paused := True, midi_out := Some []\<rparr>)" by simp
  show ?thesis
    using paused_message_is_dropped[OF p re_match_ch1note, of 1 1 "[ArgInt 60]"] re_match_ch1note
    by (simp add: cleanup_sent_messages_def init_state_def)
qed

section \<open>The merge of the player\<close>

lemma abs_times_eq:
  "abs_times a track =
     map (\<lambda>i. (a + sum_list (map msg_time (take (Suc i) track)), track ! i)) [0..<length track]"
proof (induction track arbitrary: a)
  case Nil
  then show ?case by simp
next
  case (Cons m track)
  have "[0..<length (m # track)] = 0 # map Suc [0..<length track]"
    by (simp add: upt_conv_Cons map_Suc_upt del: upt_Suc)
  then show ?case
    by (simp add: Cons.IH add.assoc del: upt_Suc)
qed

lemma collected_messages_eq:
  "collected_messages tracks =
     concat (map (\<lambda>track. map (\<lambda>i. (sum_list (map msg_time (take (Suc i) track)), track ! i))
                              [0..<length track]) tracks)"
proof -
  have "abs_times 0 =
          (\<lambda>track. map (\<lambda>i. (sum_list (map msg_time (take (Suc i) track)), track ! i))
                          [0..<length track])"
    by (rule ext) (simp add: abs_times_eq)
  then show ?thesis by (simp add: collected_messages_def)
qed

text \<open>
  Claim C8. The collected pairs are the messages of the tracks in the order the tracks were
  met, each track in its own order, each message keyed by its absolute tick: the sum of the
  delta times of its track up to and including its own. The merged sequence holds exactly
  these pairs, sorted by that key, nondecreasing, and the sort is stable: for every tick,
  the pairs at that tick appear in the merged sequence in the order they were collected.
\<close>

theorem merge_is_sorted_and_stable:
  "sorted (map fst (merged_messages tracks))
   \<and> mset (merged_messages tracks) = mset (collected_messages tracks)
   \<and> collected_messages tracks =
       concat (map (\<lambda>track. map (\<lambda>i. (sum_list (map msg_time (take (Suc i) track)), track ! i))
                                [0..<length track]) tracks)
   \<and> (\<forall>k. filter (\<lambda>p. fst p = k) (merged_messages tracks)
          = filter (\<lambda>p. fst p = k) (collected_messages tracks))"
  using collected_messages_eq[of tracks]
  by (simp add: merged_messages_def sort_key_stable)

text \<open>Two tracks: the second track's message at tick 240 goes between the first track's.\<close>

lemma merged_example:
  "merged_messages [[NoteOn 0 60 100 0, NoteOff 0 60 0 480], [NoteOn 1 62 100 240, OtherMsg 240]]
   = [(0, NoteOn 0 60 100 0), (240, NoteOn 1 62 100 240), (480, NoteOff 0 60 0 480),
      (480, OtherMsg 240)]"
  by (simp add: merged_messages_def collected_messages_def)

section \<open>Changing the tempo\<close>

lemma double_rounding_int:
  assumes "double_rounding fl" "0 \<le> k" "k \<le> 2 ^ 53"
  shows "fl (real_of_int k) = real_of_int k"
  using assms by (simp add: double_rounding_def)

lemma double_rounding_err:
  assumes "double_rounding fl" "1 \<le> x" "x \<le> 2 ^ 53"
  shows "\<bar>fl x - x\<bar> \<le> x / 2 ^ 53"
  using assms by (simp add: double_rounding_def)

lemma round_trip_tolerance:
  fixes b :: real
  assumes fl: "double_rounding fl" and b: "20 \<le> b" "b \<le> 420"
  shows "\<bar>fl (60000000 / fl (60000000 / b)) - b\<bar> \<le> 1 / 10 ^ 12"
proof -
  define q where "q = 60000000 / b"
  define us where "us = fl q"
  define r where "r = 60000000 / us"
  have bpos: "0 < b" using b by simp
  have qb: "q * b = 60000000" using bpos by (simp add: q_def)
  have q_lo: "60000000 / 420 \<le> q" unfolding q_def using b bpos by (simp add: field_simps)
  have q_hi: "q \<le> 3000000" unfolding q_def using b bpos by (simp add: field_simps)
  have q1: "1 \<le> q" using q_lo by simp
  have q2: "q \<le> 2 ^ 53" using q_hi by simp
  have qpos: "0 < q" using q1 by simp
  have e1: "\<bar>us - q\<bar> \<le> q / 2 ^ 53" unfolding us_def by (rule double_rounding_err[OF fl q1 q2])
  have us_lo: "q - q / 2 ^ 53 \<le> us" and us_hi: "us \<le> q + q / 2 ^ 53" using e1 by linarith+
  have us_lo2: "142857 \<le> us" using us_lo q_lo by simp
  have us_hi2: "us \<le> 3000001" using us_hi q_hi by simp
  have uspos: "0 < us" using us_lo2 by simp
  have rus: "r * us = 60000000" using uspos by (simp add: r_def)
  have r_hi: "r \<le> 421" unfolding r_def using us_lo2 uspos by (simp add: field_simps)
  have r_lo: "1 \<le> r" unfolding r_def using us_hi2 uspos by (simp add: field_simps)
  have rpos: "0 < r" using r_lo by simp
  have r2: "r \<le> 2 ^ 53" using r_hi by simp
  have e2: "\<bar>fl r - r\<bar> \<le> r / 2 ^ 53" by (rule double_rounding_err[OF fl r_lo r2])
  have "r - b = r * (q - us) / q"
  proof -
    have "r * (q - us) / q = (r * q - r * us) / q" by (simp add: algebra_simps)
    also have "\<dots> = r - 60000000 / q" using qpos rus by (simp add: field_simps)
    also have "60000000 / q = b" using qb qpos by (simp add: field_simps)
    finally show ?thesis by simp
  qed
  then have "\<bar>r - b\<bar> = r * \<bar>q - us\<bar> / q" using rpos qpos by (simp add: abs_mult)
  also have "\<dots> \<le> r * (q / 2 ^ 53) / q"
  proof -
    have "\<bar>q - us\<bar> \<le> q / 2 ^ 53" using e1 by (simp add: abs_minus_commute)
    then have m: "r * \<bar>q - us\<bar> \<le> r * (q / 2 ^ 53)"
      by (rule mult_left_mono) (use rpos in simp)
    show ?thesis by (rule divide_right_mono[OF m]) (use qpos in simp)
  qed
  also have "\<dots> = r / 2 ^ 53" using qpos by simp
  finally have e3: "\<bar>r - b\<bar> \<le> r / 2 ^ 53" .
  have "\<bar>fl r - b\<bar> \<le> \<bar>fl r - r\<bar> + \<bar>r - b\<bar>" by linarith
  also have "\<dots> \<le> r / 2 ^ 53 + r / 2 ^ 53" using e2 e3 by linarith
  also have "\<dots> \<le> 421 / 2 ^ 53 + 421 / 2 ^ 53" using r_hi by (simp add: divide_right_mono)
  also have "\<dots> \<le> 1 / 10 ^ 12" by simp
  finally show ?thesis by (simp add: r_def us_def q_def)
qed

text \<open>
  Claim C9. For any rounding \<open>fl\<close> that behaves as binary64 does, \<open>change_tempo\<close> at 120
  BPM leaves exactly 500000 microseconds per beat and at 60 BPM exactly 1000000. For every
  BPM from 20 to 420 it stores that BPM and, as microseconds per beat, the double nearest to
  60000000 / BPM, which is the float quotient of 60000000 by the stored BPM and lies within
  a relative 2^-53 of the exact quotient; and the float quotient of 60000000 by the stored
  microseconds per beat gives the BPM back within 10^-12.
\<close>

theorem change_tempo_keeps_ratio:
  assumes "double_rounding fl"
  shows "tempo_microseconds_per_beat (change_tempo fl 120 s) = 500000
   \<and> tempo_microseconds_per_beat (change_tempo fl 60 s) = 1000000
   \<and> (20 \<le> bpm \<and> bpm \<le> 420 \<longrightarrow>
        tempo (change_tempo fl bpm s) = bpm
        \<and> tempo_microseconds_per_beat (change_tempo fl bpm s)
            = fl (60000000 / real_of_int (tempo (change_tempo fl bpm s)))
        \<and> \<bar>tempo_microseconds_per_beat (change_tempo fl bpm s) - 60000000 / real_of_int bpm\<bar>
            \<le> (60000000 / real_of_int bpm) / 2 ^ 53
        \<and> \<bar>fl (60000000 / tempo_microseconds_per_beat (change_tempo fl bpm s)) - real_of_int bpm\<bar>
            \<le> 1 / 10 ^ 12)"
proof (intro conjI impI)
  have "fl (real_of_int 500000) = real_of_int 500000"
    by (rule double_rounding_int[OF assms]) simp_all
  then show "tempo_microseconds_per_beat (change_tempo fl 120 s) = 500000"
    by (simp add: change_tempo_def log_message_def)
next
  have "fl (real_of_int 1000000) = real_of_int 1000000"
    by (rule double_rounding_int[OF assms]) simp_all
  then show "tempo_microseconds_per_beat (change_tempo fl 60 s) = 1000000"
    by (simp add: change_tempo_def log_message_def)
next
  assume r: "20 \<le> bpm \<and> bpm \<le> 420"
  then show "tempo (change_tempo fl bpm s) = bpm"
    by (simp add: change_tempo_def log_message_def)
next
  assume r: "20 \<le> bpm \<and> bpm \<le> 420"
  then show "tempo_microseconds_per_beat (change_tempo fl bpm s)
            = fl (60000000 / real_of_int (tempo (change_tempo fl bpm s)))"
    by (simp add: change_tempo_def log_message_def)
next
  assume r: "20 \<le> bpm \<and> bpm \<le> 420"
  have "1 \<le> 60000000 / real_of_int bpm" "60000000 / real_of_int bpm \<le> 2 ^ 53"
    using r by (simp_all add: field_simps)
  from double_rounding_err[OF assms this] r
  show "\<bar>tempo_microseconds_per_beat (change_tempo fl bpm s) - 60000000 / real_of_int bpm\<bar>
            \<le> (60000000 / real_of_int bpm) / 2 ^ 53"
    by (simp add: change_tempo_def log_message_def)
next
  assume r: "20 \<le> bpm \<and> bpm \<le> 420"
  have "20 \<le> real_of_int bpm" "real_of_int bpm \<le> 420" using r by simp_all
  from round_trip_tolerance[OF assms this] r
  show "\<bar>fl (60000000 / tempo_microseconds_per_beat (change_tempo fl bpm s)) - real_of_int bpm\<bar>
            \<le> 1 / 10 ^ 12"
    by (simp add: change_tempo_def log_message_def)
qed

lemma double_rounding_at_140: "double_rounding rounding_at_140"
proof -
  have not_int: "real_of_int k \<noteq> 3000000 / 7" for k :: int
  proof
    assume "real_of_int k = 3000000 / 7"
    then have "real_of_int (7 * k) = real_of_int 3000000" by simp
    then have "7 * k = 3000000" by (simp only: of_int_eq_iff)
    then show False by presburger
  qed
  have "\<bar>rounding_at_140 x - x\<bar> \<le> x / 2 ^ 53" if "1 \<le> x" for x :: real
    using that by (simp add: rounding_at_140_def)
  moreover have "rounding_at_140 (real_of_int k) = real_of_int k" for k :: int
    using not_int[of k] by (simp add: rounding_at_140_def)
  ultimately show ?thesis by (simp add: double_rounding_def)
qed

theorem change_tempo_keeps_ratio_witness:
  "double_rounding rounding_at_140 \<and> (20::int) \<le> 140 \<and> (140::int) \<le> 420
   \<and> tempo (change_tempo rounding_at_140 140 init_state) = 140
   \<and> tempo_microseconds_per_beat (change_tempo rounding_at_140 140 init_state)
       = 7362801078857143 / 17179869184
   \<and> \<bar>rounding_at_140 (60000000 / (7362801078857143 / 17179869184)) - 140\<bar> \<le> 1 / 10 ^ 12"
  using change_tempo_keeps_ratio[OF double_rounding_at_140, of init_state 140]
        double_rounding_at_140
  by (simp add: rounding_at_140_def)


section \<open>What the callback sends and what it drops\<close>


















section \<open>Resetting the tempo\<close>

text \<open>
  Which of the two assignments to \<open>tempo_microseconds_per_beat\<close> is the last one depends on
  the slider: \<open>setValue\<close> calls \<open>change_tempo\<close> back when the bounded BPM is not the value
  the slider already shows.
\<close>

lemma fl_120: "double_rounding fl \<Longrightarrow> fl 500000 = 500000"
  using double_rounding_int[of fl 500000] by simp

lemma reset_tempo_default:
  assumes "double_rounding fl" and "midi_playlist s = first_path # rest"
    and "load first_path = Some tracks" and "first_tempo tracks = None"
  shows "tempo (reset_tempo fl load s) = 120
       \<and> tempo_microseconds_per_beat (reset_tempo fl load s) = 500000"
  using assms fl_120[OF assms(1)]
  by (simp add: reset_tempo_def tempo_slider_setValue_def update_tempo_display_def
      change_tempo_def log_message_def Let_def)

lemma reset_tempo_slider_unmoved:
  assumes "midi_playlist s = first_path # rest"
    and "load first_path = Some tracks" and "first_tempo tracks = Some u" and "u \<noteq> 0"
    and "max 20 (min 420 (int_of_float (fl (60000000 / real_of_int u)))) = tempo_slider s"
  shows "tempo_microseconds_per_beat (reset_tempo fl load s) = real_of_int u
       \<and> tempo (reset_tempo fl load s) = int_of_float (fl (60000000 / real_of_int u))"
  using assms
  by (simp add: reset_tempo_def tempo_slider_setValue_def log_message_def Let_def)

lemma reset_tempo_slider_moved:
  assumes "midi_playlist s = first_path # rest"
    and "load first_path = Some tracks" and "first_tempo tracks = Some u" and "u \<noteq> 0"
    and "max 20 (min 420 (int_of_float (fl (60000000 / real_of_int u)))) = b"
    and "b \<noteq> tempo_slider s"
  shows "tempo_microseconds_per_beat (reset_tempo fl load s) = fl (60000000 / real_of_int b)
       \<and> tempo (reset_tempo fl load s) = b"
proof -
  have "20 \<le> b" using assms(5) by simp
  then show ?thesis
    using assms
    by (simp add: reset_tempo_def tempo_slider_setValue_def update_tempo_display_def
        change_tempo_def log_message_def Let_def)
qed

lemma int_of_float_15: "double_rounding fl \<Longrightarrow> int_of_float (fl 15) = 15"
  using double_rounding_int[of fl 15] by (simp add: int_of_float_def)

lemma int_of_float_140:
  assumes "double_rounding fl"
  shows "int_of_float (fl (60000000 / 428571)) = 140"
proof -
  define q :: real where "q = 60000000 / 428571"
  have e: "\<bar>fl q - q\<bar> \<le> q / 2 ^ 53"
    unfolding q_def by (rule double_rounding_err[OF assms]) simp_all
  have "q / 2 ^ 53 \<le> 1 / 100000" "140 + 1 / 100000 \<le> q" "q \<le> 141 - 1 / 1000"
    unfolding q_def by simp_all
  with e have "140 \<le> fl q" "fl q < 141" by linarith+
  then have "\<lfloor>fl q\<rfloor> = 140" by (simp add: floor_unique)
  with \<open>140 \<le> fl q\<close> show ?thesis unfolding q_def int_of_float_def by simp
qed

lemma fl_428571:
  assumes "double_rounding fl"
  shows "fl (3000000 / 7) \<noteq> 428571"
proof -
  define q :: real where "q = 3000000 / 7"
  have e: "\<bar>fl q - q\<bar> \<le> q / 2 ^ 53"
    unfolding q_def by (rule double_rounding_err[OF assms]) simp_all
  have "q / 2 ^ 53 \<le> 1 / 100000" "428571 + 1 / 10 \<le> q"
    unfolding q_def by simp_all
  with e have "428571 < fl q" by linarith
  then show ?thesis unfolding q_def by simp
qed

text \<open>
  Claim C2 says that after \<open>reset_tempo\<close> the microseconds per beat are those of the first
  tempo event of the first file. The program does not do that when the slider moves. With
  the slider at its initial 120: a file whose first tempo event is 4000000 (15 BPM) leaves
  3000000 microseconds per beat and 20 BPM, the slider's lower bound; a file whose first
  tempo event is 428571 (140 BPM) leaves the double nearest to 3000000 / 7, which is not
  428571. This holds for every rounding with the two properties of binary64.
\<close>

theorem reset_tempo_overwrites_file_tempo:
  assumes "double_rounding fl"
  shows "tempo_microseconds_per_beat
           (reset_tempo fl (\<lambda>p. Some [[OtherMsg 0, SetTempo 4000000 0]])
              (init_state\<lparr>midi_playlist := [''slow.mid'']\<rparr>)) = 3000000
       \<and> tempo (reset_tempo fl (\<lambda>p. Some [[OtherMsg 0, SetTempo 4000000 0]])
              (init_state\<lparr>midi_playlist := [''slow.mid'']\<rparr>)) = 20
       \<and> tempo_microseconds_per_beat
           (reset_tempo fl (\<lambda>p. Some [[SetTempo 428571 0]])
              (init_state\<lparr>midi_playlist := [''song.mid'']\<rparr>)) = fl (3000000 / 7)
       \<and> fl (3000000 / 7) \<noteq> 428571"
proof -
  let ?s1 = "init_state\<lparr>midi_playlist := [''slow.mid'']\<rparr>"
  let ?s2 = "init_state\<lparr>midi_playlist := [''song.mid'']\<rparr>"
  have fl3: "fl 3000000 = 3000000" using double_rounding_int[OF assms, of 3000000] by simp
  have a: "tempo_microseconds_per_beat
             (reset_tempo fl (\<lambda>p. Some [[OtherMsg 0, SetTempo 4000000 0]]) ?s1)
             = fl (60000000 / real_of_int 20)
         \<and> tempo (reset_tempo fl (\<lambda>p. Some [[OtherMsg 0, SetTempo 4000000 0]]) ?s1) = 20"
    by (rule reset_tempo_slider_moved[where first_path = "''slow.mid''" and rest = "[]"
          and tracks = "[[OtherMsg 0, SetTempo 4000000 0]]" and u = 4000000])
       (simp_all add: init_state_def int_of_float_15[OF assms])
  have b: "tempo_microseconds_per_beat (reset_tempo fl (\<lambda>p. Some [[SetTempo 428571 0]]) ?s2)
             = fl (60000000 / real_of_int 140)
         \<and> tempo (reset_tempo fl (\<lambda>p. Some [[SetTempo 428571 0]]) ?s2) = 140"
    by (rule reset_tempo_slider_moved[where first_path = "''song.mid''" and rest = "[]"
          and tracks = "[[SetTempo 428571 0]]" and u = 428571])
       (use int_of_float_140[OF assms] in \<open>simp_all add: init_state_def\<close>)
  show ?thesis using a b fl3 fl_428571[OF assms] by simp
qed

theorem reset_tempo_overwrites_file_tempo_witness:
  "double_rounding rounding_at_140
   \<and> tempo_microseconds_per_beat
           (reset_tempo rounding_at_140 (\<lambda>p. Some [[OtherMsg 0, SetTempo 4000000 0]])
              (init_state\<lparr>midi_playlist := [''slow.mid'']\<rparr>)) = 3000000
   \<and> tempo_microseconds_per_beat
           (reset_tempo rounding_at_140 (\<lambda>p. Some [[SetTempo 428571 0]])
              (init_state\<lparr>midi_playlist := [''song.mid'']\<rparr>))
       = 7362801078857143 / 17179869184"
  using reset_tempo_overwrites_file_tempo[OF double_rounding_at_140] double_rounding_at_140
  by (simp add: rounding_at_140_def)

section \<open>Skipping in the playlist\<close>

lemma skip_forward_wraps_without_join:
  assumes "midi_playlist s \<noteq> []"
    and "current_playlist_index s = int (length (midi_playlist s)) - 1"
    and "\<not> (thread_alive s \<and> exits)"
  shows "current_playlist_index (skip_forward exits s) = 0
       \<and> playing (skip_forward exits s) \<and> \<not> request_stop (skip_forward exits s)
       \<and> thread_alive (skip_forward exits s)"
  using assms
  by (auto simp: skip_forward_def join_thread_def play_def log_message_def Let_def)

lemma skip_back_wraps:
  assumes "midi_playlist s \<noteq> []" and "current_playlist_index s = 0"
  shows "current_playlist_index (skip_back exits s) = int (length (midi_playlist s)) - 1
       \<and> playing (skip_back exits s) \<and> \<not> request_stop (skip_back exits s)
       \<and> thread_alive (skip_back exits s)"
proof -
  have "(- 1) mod int (length (midi_playlist s)) = int (length (midi_playlist s)) - 1"
    using assms(1) by (cases "midi_playlist s") (simp_all add: zmod_minus1)
  then show ?thesis
    using assms
    by (auto simp: skip_back_def join_thread_def play_playlist_exit_def play_def log_message_def
        Let_def)
qed

lemma skip_forward_after_join:
  assumes "midi_playlist s \<noteq> []" and "thread_alive s"
  shows "current_playlist_index (skip_forward True s) = 1 mod int (length (midi_playlist s))"
  using assms
  by (simp add: skip_forward_def join_thread_def play_playlist_exit_def play_def log_message_def
      Let_def)

text \<open>
  Claim C7 says that skip-forward at the last index K - 1 sets the index to 0. While a file
  is playing the program does not: the player thread, told to stop, sets the index to 0 on
  its way out, the join waits for that, and the increment then gives 1. With three files,
  the third playing, skip-forward restarts playback at index 1.
\<close>

theorem skip_forward_during_playback_lands_on_one:
  "current_playlist_index
     (skip_forward True
        (init_state\<lparr>midi_playlist := [''a.mid'', ''b.mid'', ''c.mid''],
                    current_playlist_index := 2, playing := True, thread_alive := True\<rparr>)) = 1
   \<and> playing
     (skip_forward True
        (init_state\<lparr>midi_playlist := [''a.mid'', ''b.mid'', ''c.mid''],
                    current_playlist_index := 2, playing := True, thread_alive := True\<rparr>))"
  by (simp add: skip_forward_def join_thread_def play_playlist_exit_def play_def log_message_def
      Let_def init_state_def)

section \<open>From MIDI to OSC and back\<close>

text \<open>What \<open>int()\<close> reads back from the digits an f-string printed, and what the pattern
  finds in the addresses the listener builds.\<close>

lemma is_digit_digit_char: "d < 10 \<Longrightarrow> is_digit (digit_char d)"
  by (simp add: is_digit_def digit_char_def)

lemma digit_val_digit_char: "d < 10 \<Longrightarrow> digit_val (digit_char d) = d"
  by (simp add: digit_val_def digit_char_def)

lemma str_nat_digits: "c \<in> set (str_nat n) \<Longrightarrow> is_digit c"
proof (induction n arbitrary: c rule: str_nat.induct)
  case (1 n)
  show ?case
  proof (cases "n < 10")
    case True
    with "1.prems" show ?thesis by (simp add: str_nat.simps[of n] is_digit_digit_char)
  next
    case False
    with "1.prems" have "c \<in> set (str_nat (n div 10)) \<or> c = digit_char (n mod 10)"
      by (auto simp: str_nat.simps[of n])
    then show ?thesis
    proof
      assume "c \<in> set (str_nat (n div 10))"
      with False "1.IH" show ?thesis by blast
    next
      assume "c = digit_char (n mod 10)"
      then show ?thesis by (simp add: is_digit_digit_char)
    qed
  qed
qed

lemma str_nat_nonempty: "str_nat n \<noteq> []"
  by (cases "n < 10") (simp_all add: str_nat.simps[of n])

lemma foldl_str_nat: "foldl (\<lambda>a c. 10 * a + digit_val c) 0 (str_nat n) = n"
proof (induction n rule: str_nat.induct)
  case (1 n)
  show ?case
  proof (cases "n < 10")
    case True
    then show ?thesis by (simp add: str_nat.simps[of n] digit_val_digit_char)
  next
    case False
    then have "foldl (\<lambda>a c. 10 * a + digit_val c) 0 (str_nat (n div 10)) = n div 10"
      by (rule "1.IH")
    with False show ?thesis by (simp add: str_nat.simps[of n] digit_val_digit_char)
  qed
qed

lemma int_of_digits_py_str: "0 \<le> i \<Longrightarrow> int_of_digits (py_str i) = i"
  by (simp add: int_of_digits_def py_str_def foldl_str_nat)

lemma py_str_digits: "0 \<le> i \<Longrightarrow> c \<in> set (py_str i) \<Longrightarrow> is_digit c"
  by (simp add: py_str_def str_nat_digits)

lemma py_str_nonempty: "py_str i \<noteq> []"
  by (simp add: py_str_def str_nat_nonempty)

lemma takeWhile_py_str:
  assumes "0 \<le> i" and "\<not> is_digit x"
  shows "takeWhile is_digit (py_str i @ x # rest) = py_str i"
    and "dropWhile is_digit (py_str i @ x # rest) = x # rest"
  using assms py_str_digits[OF assms(1)]
  by (simp_all add: takeWhile_append2 dropWhile_append2)

lemma takeWhile_py_str_end:
  assumes "0 \<le> i"
  shows "takeWhile is_digit (py_str i) = py_str i"
  using py_str_digits[OF assms] by (simp add: takeWhile_eq_all_conv)

lemma not_digit_letters:
  "\<not> is_digit CHR ''n''" "\<not> is_digit CHR ''c''" "\<not> is_digit CHR ''p''"
  by (simp_all add: is_digit_def)

lemma re_match_note:
  "0 \<le> i \<Longrightarrow> re_match (''/ch'' @ py_str i @ ''note'') = Some (py_str i, ''note'', None)"
  using takeWhile_py_str[of i "CHR ''n''" "''ote''"] py_str_nonempty[of i]
  by (simp add: re_match_def Let_def not_digit_letters)

lemma re_match_noff:
  "0 \<le> i \<Longrightarrow> re_match (''/ch'' @ py_str i @ ''noff'') = Some (py_str i, ''noff'', None)"
  using takeWhile_py_str[of i "CHR ''n''" "''off''"] py_str_nonempty[of i]
  by (simp add: re_match_def Let_def not_digit_letters)

lemma re_match_pressure:
  "0 \<le> i \<Longrightarrow>
   re_match (''/ch'' @ py_str i @ ''pressure'') = Some (py_str i, ''pressure'', None)"
  using takeWhile_py_str[of i "CHR ''p''" "''ressure''"] py_str_nonempty[of i]
  by (simp add: re_match_def Let_def not_digit_letters)

lemma re_match_pitch:
  "0 \<le> i \<Longrightarrow> re_match (''/ch'' @ py_str i @ ''pitch'') = Some (py_str i, ''pitch'', None)"
  using takeWhile_py_str[of i "CHR ''p''" "''itch''"] py_str_nonempty[of i]
  by (simp add: re_match_def Let_def not_digit_letters)

lemma re_match_cc:
  assumes "0 \<le> i" and "0 \<le> k"
  shows "re_match (''/ch'' @ py_str i @ ''cc'' @ py_str k)
           = Some (py_str i, ''cc'' @ py_str k, Some (py_str k))"
  using takeWhile_py_str[OF assms(1) not_digit_letters(2), of "CHR ''c'' # py_str k"]
    py_str_nonempty[of i] py_str_nonempty[of k]
  by (simp add: re_match_def Let_def takeWhile_py_str_end[OF assms(2)])

lemma listener_sends:
  assumes "midi_to_osc msg = Some (address, v, kind)" and "osc_client s0 = Some sent"
  shows "\<exists>s1. run_midi_input_msg t0 msg s0 = Inr s1
              \<and> osc_client s1 = Some (sent @ [(address, v)])"
  using assms by (simp add: run_midi_input_msg_def translate_and_send_def)

lemma handle_unpaused:
  assumes "re_match address = Some (g1, command, cc_num)" and "\<not> paused s"
  shows "handle_osc_message ct t address args s =
           (case osc_to_midi t address args (int_of_digits g1 - 1) command cc_num
                   (cleanup_sent_messages ct s) of
              Inr s2 \<Rightarrow> Inr s2
            | Inl e \<Rightarrow> Inr (log_message (LogError address e) (cleanup_sent_messages ct s)))"
  using assms
  by (simp add: handle_osc_message_def cleanup_sent_messages_def Let_def split: sum.split)

lemma osc_to_midi_sends:
  assumes "midi_out s = Some out" and "check_channel c"
  shows "check_data_byte n \<Longrightarrow>
           \<exists>s2. osc_to_midi t a [ArgInt n] c ''note'' None s = Inr s2
                \<and> midi_out s2 = Some (out @ [NoteOn c n 100 0])"
    and "check_data_byte n \<Longrightarrow>
           \<exists>s2. osc_to_midi t a [ArgInt n] c ''noff'' None s = Inr s2
                \<and> midi_out s2 = Some (out @ [NoteOff c n 0 0])"
    and "check_data_byte k \<Longrightarrow> check_data_byte v \<Longrightarrow>
           \<exists>s2. osc_to_midi t a [ArgInt v] c (''cc'' @ py_str k) (Some (py_str k)) s = Inr s2
                \<and> midi_out s2 = Some (out @ [ControlChange c k v 0])"
    and "check_data_byte v \<Longrightarrow>
           \<exists>s2. osc_to_midi t a [ArgInt v] c ''pressure'' None s = Inr s2
                \<and> midi_out s2 = Some (out @ [Aftertouch c v 0])"
    and "check_pitch p \<Longrightarrow>
           \<exists>s2. osc_to_midi t a [ArgInt p] c ''pitch'' None s = Inr s2
                \<and> midi_out s2 = Some (out @ [Pitchwheel c p 0])"
  using assms
  by (simp_all add: osc_to_midi_def then_do_def int_arg0_def Message_note_on_def
      Message_note_off_def Message_control_change_def Message_aftertouch_def
      Message_pitchwheel_def send_and_record_def check_data_byte_def int_of_digits_py_str)

lemma round_trip_step:
  assumes "midi_to_osc msg = Some (address, v, kind)" and "osc_client s0 = Some sent"
    and "re_match address = Some (g1, command, cc_num)" and "\<not> paused s"
    and "\<exists>s2. osc_to_midi t address [ArgInt v] (int_of_digits g1 - 1) command cc_num
                 (cleanup_sent_messages ct s) = Inr s2
              \<and> midi_out s2 = Some (out @ [m])"
    and "equivalent_event msg m"
  shows "\<exists>address v s1 s' m.
           run_midi_input_msg t0 msg s0 = Inr s1
         \<and> osc_client s1 = Some (sent @ [(address, v)])
         \<and> handle_osc_message ct t address [ArgInt v] s = Inr s'
         \<and> midi_out s' = Some (out @ [m])
         \<and> equivalent_event msg m"
proof -
  obtain s1 where s1: "run_midi_input_msg t0 msg s0 = Inr s1"
    "osc_client s1 = Some (sent @ [(address, v)])"
    using listener_sends[OF assms(1,2)] by blast
  obtain s2 where s2: "osc_to_midi t address [ArgInt v] (int_of_digits g1 - 1) command cc_num
                 (cleanup_sent_messages ct s) = Inr s2" "midi_out s2 = Some (out @ [m])"
    using assms(5) by blast
  have "handle_osc_message ct t address [ArgInt v] s = Inr s2"
    by (simp add: handle_unpaused[OF assms(3,4)] s2(1))
  with s1 s2(2) assms(6) show ?thesis by blast
qed

lemma midi_out_cleanup: "midi_out (cleanup_sent_messages ct s) = midi_out s"
  by (simp add: cleanup_sent_messages_def)

text \<open>
  Claim C1. Take any channel message mido can hand to the listener: a note-on, note-off,
  control change, aftertouch or pitch wheel message on a channel 0..15. The listener sends
  one OSC message for it, the channel plus one in the address. When the callback receives
  that address with that argument, while the bridge is not paused and a MIDI output is
  open, it returns and has sent exactly one message to the MIDI output, equivalent to the
  original: the same kind, the same channel (the number in the address minus one), the
  same note, controller and value, or pitch.
\<close>

theorem decode_inverts_encode:
  assumes "valid_msg msg" and "osc_client s0 = Some sent"
    and "\<not> paused s" and "midi_out s = Some out"
  shows "\<exists>address v s1 s' m.
           run_midi_input_msg t0 msg s0 = Inr s1
         \<and> osc_client s1 = Some (sent @ [(address, v)])
         \<and> handle_osc_message ct t address [ArgInt v] s = Inr s'
         \<and> midi_out s' = Some (out @ [m])
         \<and> equivalent_event msg m"
proof -
  have mo: "midi_out (cleanup_sent_messages ct s) = Some out"
    using assms(4) by (simp add: midi_out_cleanup)
  show ?thesis
  proof (cases msg)
    case (NoteOn c n v tm)
    with assms(1) have c: "0 \<le> c + 1" "check_channel c" "check_data_byte n" "0 \<le> v"
      by (simp_all add: check_channel_def check_data_byte_def)
    have ch: "int_of_digits (py_str (c + 1)) - 1 = c"
      using c(1) by (simp add: int_of_digits_py_str)
    show ?thesis
    proof (cases "v > 0")
      case True
      show ?thesis
      proof (rule round_trip_step[OF _ assms(2) re_match_note[OF c(1)] assms(3)])
        show "midi_to_osc msg
                = Some (''/ch'' @ py_str (c + 1) @ ''note'', n, ''note_on'')"
          using NoteOn True by simp
        show "\<exists>s2. osc_to_midi t (''/ch'' @ py_str (c + 1) @ ''note'') [ArgInt n]
                     (int_of_digits (py_str (c + 1)) - 1) ''note'' None
                     (cleanup_sent_messages ct s) = Inr s2
                  \<and> midi_out s2 = Some (out @ [NoteOn c n 100 0])"
          unfolding ch by (rule osc_to_midi_sends(1)[OF mo c(2) c(3)])
        show "equivalent_event msg (NoteOn c n 100 0)" using NoteOn True by simp
      qed
    next
      case False
      with c have v0: "v = 0" by simp
      show ?thesis
      proof (rule round_trip_step[OF _ assms(2) re_match_noff[OF c(1)] assms(3)])
        show "midi_to_osc msg
                = Some (''/ch'' @ py_str (c + 1) @ ''noff'', n, ''note_off'')"
          using NoteOn v0 by simp
        show "\<exists>s2. osc_to_midi t (''/ch'' @ py_str (c + 1) @ ''noff'') [ArgInt n]
                     (int_of_digits (py_str (c + 1)) - 1) ''noff'' None
                     (cleanup_sent_messages ct s) = Inr s2
                  \<and> midi_out s2 = Some (out @ [NoteOff c n 0 0])"
          unfolding ch by (rule osc_to_midi_sends(2)[OF mo c(2) c(3)])
        show "equivalent_event msg (NoteOff c n 0 0)" using NoteOn v0 by simp
      qed
    qed
  next
    case (NoteOff c n v tm)
    with assms(1) have c: "0 \<le> c + 1" "check_channel c" "check_data_byte n"
      by (simp_all add: check_channel_def check_data_byte_def)
    have ch: "int_of_digits (py_str (c + 1)) - 1 = c"
      using c(1) by (simp add: int_of_digits_py_str)
    show ?thesis
    proof (rule round_trip_step[OF _ assms(2) re_match_noff[OF c(1)] assms(3)])
      show "midi_to_osc msg
              = Some (''/ch'' @ py_str (c + 1) @ ''noff'', n, ''note_off'')"
        using NoteOff by simp
      show "\<exists>s2. osc_to_midi t (''/ch'' @ py_str (c + 1) @ ''noff'') [ArgInt n]
                   (int_of_digits (py_str (c + 1)) - 1) ''noff'' None
                   (cleanup_sent_messages ct s) = Inr s2
                \<and> midi_out s2 = Some (out @ [NoteOff c n 0 0])"
        unfolding ch by (rule osc_to_midi_sends(2)[OF mo c(2) c(3)])
      show "equivalent_event msg (NoteOff c n 0 0)" using NoteOff by simp
    qed
  next
    case (ControlChange c k v tm)
    with assms(1) have c: "0 \<le> c + 1" "check_channel c" "check_data_byte k"
      "check_data_byte v" "0 \<le> k"
      by (simp_all add: check_channel_def check_data_byte_def)
    have ch: "int_of_digits (py_str (c + 1)) - 1 = c"
      using c(1) by (simp add: int_of_digits_py_str)
    show ?thesis
    proof (rule round_trip_step[OF _ assms(2) re_match_cc[OF c(1) c(5)] assms(3)])
      show "midi_to_osc msg
              = Some (''/ch'' @ py_str (c + 1) @ ''cc'' @ py_str k, v, ''control_change'')"
        using ControlChange by simp
      show "\<exists>s2. osc_to_midi t (''/ch'' @ py_str (c + 1) @ ''cc'' @ py_str k) [ArgInt v]
                   (int_of_digits (py_str (c + 1)) - 1) (''cc'' @ py_str k) (Some (py_str k))
                   (cleanup_sent_messages ct s) = Inr s2
                \<and> midi_out s2 = Some (out @ [ControlChange c k v 0])"
        unfolding ch by (rule osc_to_midi_sends(3)[OF mo c(2) c(3) c(4)])
      show "equivalent_event msg (ControlChange c k v 0)" using ControlChange by simp
    qed
  next
    case (Aftertouch c v tm)
    with assms(1) have c: "0 \<le> c + 1" "check_channel c" "check_data_byte v"
      by (simp_all add: check_channel_def check_data_byte_def)
    have ch: "int_of_digits (py_str (c + 1)) - 1 = c"
      using c(1) by (simp add: int_of_digits_py_str)
    show ?thesis
    proof (rule round_trip_step[OF _ assms(2) re_match_pressure[OF c(1)] assms(3)])
      show "midi_to_osc msg
              = Some (''/ch'' @ py_str (c + 1) @ ''pressure'', v, ''aftertouch'')"
        using Aftertouch by simp
      show "\<exists>s2. osc_to_midi t (''/ch'' @ py_str (c + 1) @ ''pressure'') [ArgInt v]
                   (int_of_digits (py_str (c + 1)) - 1) ''pressure'' None
                   (cleanup_sent_messages ct s) = Inr s2
                \<and> midi_out s2 = Some (out @ [Aftertouch c v 0])"
        unfolding ch by (rule osc_to_midi_sends(4)[OF mo c(2) c(3)])
      show "equivalent_event msg (Aftertouch c v 0)" using Aftertouch by simp
    qed
  next
    case (Pitchwheel c p tm)
    with assms(1) have c: "0 \<le> c + 1" "check_channel c" "check_pitch p"
      by (simp_all add: check_channel_def)
    have ch: "int_of_digits (py_str (c + 1)) - 1 = c"
      using c(1) by (simp add: int_of_digits_py_str)
    show ?thesis
    proof (rule round_trip_step[OF _ assms(2) re_match_pitch[OF c(1)] assms(3)])
      show "midi_to_osc msg
              = Some (''/ch'' @ py_str (c + 1) @ ''pitch'', p, ''pitchwheel'')"
        using Pitchwheel by simp
      show "\<exists>s2. osc_to_midi t (''/ch'' @ py_str (c + 1) @ ''pitch'') [ArgInt p]
                   (int_of_digits (py_str (c + 1)) - 1) ''pitch'' None
                   (cleanup_sent_messages ct s) = Inr s2
                \<and> midi_out s2 = Some (out @ [Pitchwheel c p 0])"
        unfolding ch by (rule osc_to_midi_sends(5)[OF mo c(2) c(3)])
      show "equivalent_event msg (Pitchwheel c p 0)" using Pitchwheel by simp
    qed
  next
    case (SetTempo u tm)
    with assms(1) show ?thesis by simp
  next
    case (OtherMsg tm)
    with assms(1) show ?thesis by simp
  qed
qed

theorem decode_inverts_encode_witness:
  "valid_msg (NoteOn 9 60 64 0)
   \<and> osc_client (init_state\<lparr>osc_client := Some []\<rparr>) = Some []
   \<and> \<not> paused (init_state\<lparr>midi_out := Some []\<rparr>)
   \<and> midi_out (init_state\<lparr>midi_out := Some []\<rparr>) = Some []
   \<and> (\<exists>address v s1 s' m.
         run_midi_input_msg 0 (NoteOn 9 60 64 0) (init_state\<lparr>osc_client := Some []\<rparr>) = Inr s1
       \<and> osc_client s1 = Some ([] @ [(address, v)])
       \<and> handle_osc_message 1 1 address [ArgInt v] (init_state\<lparr>midi_out := Some []\<rparr>) = Inr s'
       \<and> midi_out s' = Some ([] @ [m])
       \<and> equivalent_event (NoteOn 9 60 64 0) m)"
proof -
  have v: "valid_msg (NoteOn 9 60 64 0)"
    by (simp add: check_channel_def check_data_byte_def)
  have a: "osc_client (init_state\<lparr>osc_client := Some []\<rparr>) = Some []" by simp
  have p: "\<not> paused (init_state\<lparr>midi_out := Some []\<rparr>)" by (simp add: init_state_def)
  have b: "midi_out (init_state\<lparr>midi_out := Some []\<rparr>) = Some []" by simp
  show ?thesis
    using decode_inverts_encode[OF v a p b, of 0 1 1] v a p b by blast
qed

section \<open>The size and the age of the history buffer\<close>

text \<open>
  A reading of \<open>time.time()\<close> taken between 2004 and 2038 is a double between 2^30 and
  2^31, a multiple of 2^-22. The difference of two such readings is a multiple of 2^-22
  smaller than 2^31, so it is a double and the subtraction of the sweep loop returns it
  exactly. The literal \<open>0.1\<close> denotes the double 3602879701896397 / 2^55, a little above
  1 / 10; no multiple of 2^-22 lies between the two, so on these readings the loop's test is
  the test written in \<open>evict\<close>.
\<close>

lemma sweep_test_on_clock_doubles:
  fixes a b :: int
  shows "(real_of_int a / 2 ^ 22 - real_of_int b / 2 ^ 22 > 0.1)
       = (real_of_int a / 2 ^ 22 - real_of_int b / 2 ^ 22
            > 3602879701896397 / 36028797018963968)"
proof -
  define m where "m = a - b"
  have d: "real_of_int a / 2 ^ 22 - real_of_int b / 2 ^ 22 = real_of_int m / 4194304"
    by (simp add: m_def diff_divide_distrib)
  consider "m \<le> 419430" | "419431 \<le> m" by linarith
  then show ?thesis
  proof cases
    case 1
    then have "real_of_int m \<le> 419430" by linarith
    then show ?thesis unfolding d by simp
  next
    case 2
    then have "419431 \<le> real_of_int m" by linarith
    then show ?thesis unfolding d by simp
  qed
qed

text \<open>
  What a sweep and an append do to the buffer: a sweep drops a prefix, an append adds one
  record at the end and drops the first when that makes 101. What the callback, the
  listener, the player and the test note leave in the buffer is stated for any property
  \<open>Q\<close> of buffers that holds of the buffers they can produce.
\<close>

lemma sorted_drop_append:
  fixes ys :: "real list"
  assumes "sorted (ys @ X)"
  shows "sorted (drop k ys @ X)"
proof -
  have "sorted (drop k ys)" using assms by (simp add: sorted_append sorted_wrt_drop)
  moreover have "\<forall>y\<in>set (drop k ys). \<forall>x\<in>set X. y \<le> x"
    using assms by (auto simp: sorted_append dest: in_set_dropD)
  ultimately show ?thesis using assms by (simp add: sorted_append)
qed

lemma sorted_skip:
  fixes ys :: "real list"
  assumes "sorted (ys @ x # X)"
  shows "sorted (ys @ X)"
  using assms by (auto simp: sorted_append)

lemma evict_length: "length (evict ct rs) \<le> length rs"
proof -
  obtain k where "evict ct rs = drop k rs" using evict_drop by blast
  then show ?thesis by simp
qed

lemma evict_set: "r \<in> set (evict ct rs) \<Longrightarrow> r \<in> set rs"
proof -
  assume a: "r \<in> set (evict ct rs)"
  obtain k where "evict ct rs = drop k rs" using evict_drop by blast
  with a show ?thesis by (auto dest: in_set_dropD)
qed

lemma evict_sorted_append:
  assumes "sorted (map emitted_at rs @ X)"
  shows "sorted (map emitted_at (evict ct rs) @ X)"
proof -
  obtain k where "evict ct rs = drop k rs" using evict_drop by blast
  then have "map emitted_at (evict ct rs) = drop k (map emitted_at rs)" by (simp add: drop_map)
  then show ?thesis using sorted_drop_append[OF assms, of k] by simp
qed

lemma evict_sorted_bound:
  assumes "sorted (map emitted_at rs)" and "r \<in> set (evict ct rs)"
  shows "ct - emitted_at r \<le> 0.1"
  using assms
proof (induction rs)
  case Nil
  then show ?case by simp
next
  case (Cons a rs)
  show ?case
  proof (cases "ct - emitted_at a > 0.1")
    case True
    with Cons show ?thesis by simp
  next
    case False
    with Cons.prems have "r = a \<or> r \<in> set rs" by simp
    moreover have "\<forall>x\<in>set rs. emitted_at a \<le> emitted_at x" using Cons.prems(1) by simp
    ultimately have "emitted_at a \<le> emitted_at r" by auto
    with False show ?thesis by simp
  qed
qed

lemma deque_append_length: "length xs \<le> 100 \<Longrightarrow> length (deque_append x xs) \<le> 100"
  by (simp add: deque_append_def Let_def)

lemma deque_append_drop: "\<exists>j. deque_append x xs = drop j (xs @ [x])"
proof (cases "length (xs @ [x]) > 100")
  case True
  have "drop (Suc 0) (xs @ [x]) = tl (xs @ [x])" by (simp only: drop_Suc drop_0)
  with True have "deque_append x xs = drop (Suc 0) (xs @ [x])"
    by (simp only: deque_append_def Let_def if_True)
  then show ?thesis by blast
next
  case False
  then have "deque_append x xs = drop 0 (xs @ [x])"
    by (simp only: deque_append_def Let_def if_False drop_0)
  then show ?thesis by blast
qed

lemma deque_append_set: "r \<in> set (deque_append x xs) \<Longrightarrow> r = x \<or> r \<in> set xs"
proof -
  assume a: "r \<in> set (deque_append x xs)"
  obtain j where "deque_append x xs = drop j (xs @ [x])" using deque_append_drop[of x xs] by blast
  with a have "r \<in> set (xs @ [x])" by (auto dest: in_set_dropD)
  then show ?thesis by auto
qed

lemma deque_append_sorted:
  assumes "sorted (map emitted_at b @ emitted_at rec # X)"
  shows "sorted (map emitted_at (deque_append rec b) @ X)"
proof -
  obtain j where j: "deque_append rec b = drop j (b @ [rec])"
    using deque_append_drop[of rec b] by blast
  have e: "map emitted_at (b @ [rec]) = map emitted_at b @ [emitted_at rec]" by simp
  have m: "map emitted_at (deque_append rec b) = drop j (map emitted_at b @ [emitted_at rec])"
    unfolding j e[symmetric] by (rule drop_map[symmetric])
  have "sorted ((map emitted_at b @ [emitted_at rec]) @ X)" using assms by simp
  then have "sorted (drop j (map emitted_at b @ [emitted_at rec]) @ X)"
    by (rule sorted_drop_append)
  then show ?thesis by (simp only: m)
qed

lemma osc_to_midi_buffer:
  assumes "Q (sent_messages s)"
    and "\<And>kind. Q (deque_append (a, args, kind, t) (sent_messages s))"
  shows "case osc_to_midi t a args ch cmd cc s of Inl e \<Rightarrow> True
         | Inr s' \<Rightarrow> Q (sent_messages s')"
  unfolding osc_to_midi_def then_do_def
  by (simp add: assms send_and_record_def log_message_def split: sum.split option.split)

lemma handle_osc_message_buffer:
  assumes "Q (evict ct (sent_messages s))"
    and "\<And>kind. Q (deque_append (a, args, kind, t) (evict ct (sent_messages s)))"
  shows "Q (sent_messages (state_after (handle_osc_message ct t a args s) s))"
proof (cases "re_match a")
  case None
  then show ?thesis
    using assms(1) by (simp add: handle_osc_message_def state_after_def log_message_def)
next
  case (Some g)
  obtain g1 command cc_num where g: "g = (g1, command, cc_num)" by (cases g) auto
  let ?s1 = "s\<lparr>sent_messages := evict ct (sent_messages s)\<rparr>"
  show ?thesis
  proof (cases "paused s")
    case True
    then show ?thesis
      using assms(1) Some g by (simp add: handle_osc_message_def state_after_def Let_def)
  next
    case False
    have b: "case osc_to_midi t a args (int_of_digits g1 - 1) command cc_num ?s1 of
               Inl e \<Rightarrow> True | Inr s' \<Rightarrow> Q (sent_messages s')"
      by (rule osc_to_midi_buffer) (simp_all add: assms)
    show ?thesis
    proof (cases "osc_to_midi t a args (int_of_digits g1 - 1) command cc_num ?s1")
      case (Inl e)
      then show ?thesis
        using assms(1) Some g False
        by (simp add: handle_osc_message_def state_after_def Let_def log_message_def)
    next
      case (Inr s')
      then show ?thesis
        using b Some g False by (simp add: handle_osc_message_def state_after_def Let_def)
    qed
  qed
qed

lemma translate_and_send_buffer:
  assumes "Q (sent_messages s)"
    and "\<And>rec. emitted_at rec = t \<Longrightarrow> Q (deque_append rec (sent_messages s))"
  shows "Q (sent_messages (state_after (translate_and_send line t msg s) s))"
  using assms
  by (simp add: translate_and_send_def state_after_def emitted_at_def
      split: option.split prod.split)

lemma send_test_note_buffer:
  assumes "Q (sent_messages s)"
    and "\<And>rec. emitted_at rec = t \<Longrightarrow> Q (deque_append rec (sent_messages s))"
  shows "Q (sent_messages (send_test_note t chan s))"
  using assms
  by (simp add: send_test_note_def log_message_def emitted_at_def split: option.split)

lemma apply_event_length:
  assumes "length (sent_messages s) \<le> 100"
  shows "length (sent_messages (apply_event e s)) \<le> 100"
proof (cases e)
  case (OscIn ct t a args)
  have ev: "length (evict ct (sent_messages s)) \<le> 100"
    using evict_length[of ct "sent_messages s"] assms by simp
  have "length (sent_messages (state_after (handle_osc_message ct t a args s) s)) \<le> 100"
    by (rule handle_osc_message_buffer[where Q = "\<lambda>b. length b \<le> 100"])
       (simp_all add: ev deque_append_length)
  then show ?thesis using OscIn by simp
next
  case (MidiIn t msg)
  have "length (sent_messages (state_after (translate_and_send LogMidiToOsc t msg s) s)) \<le> 100"
    by (rule translate_and_send_buffer[where Q = "\<lambda>b. length b \<le> 100" and t = t])
       (simp_all add: assms deque_append_length)
  then show ?thesis using MidiIn by (simp add: run_midi_input_msg_def)
next
  case (Played t msg)
  have "length (sent_messages (state_after (translate_and_send LogPlayed t msg s) s)) \<le> 100"
    by (rule translate_and_send_buffer[where Q = "\<lambda>b. length b \<le> 100" and t = t])
       (simp_all add: assms deque_append_length)
  then show ?thesis using Played by (simp add: play_single_midi_msg_def)
next
  case (TestNote t chan)
  have "length (sent_messages (send_test_note t chan s)) \<le> 100"
    by (rule send_test_note_buffer[where Q = "\<lambda>b. length b \<le> 100" and t = t])
       (simp_all add: assms deque_append_length)
  then show ?thesis using TestNote by simp
next
  case (Sweep ct)
  then show ?thesis
    using evict_length[of ct "sent_messages s"] assms by (simp add: cleanup_sent_messages_def)
qed

lemma run_events_length:
  "length (sent_messages s) \<le> 100 \<Longrightarrow> length (sent_messages (run_events evs s)) \<le> 100"
proof (induction evs arbitrary: s)
  case Nil
  then show ?case by simp
next
  case (Cons e evs)
  then show ?case by (simp add: apply_event_length)
qed

lemma apply_event_sorted:
  assumes "sorted (map emitted_at (sent_messages s) @ event_times e @ X)"
  shows "sorted (map emitted_at (sent_messages (apply_event e s)) @ X)"
proof (cases e)
  case (OscIn ct t a args)
  with assms have "sorted (map emitted_at (sent_messages s) @ ct # t # X)" by simp
  then have 1: "sorted (map emitted_at (sent_messages s) @ t # X)" by (rule sorted_skip)
  then have 2: "sorted (map emitted_at (evict ct (sent_messages s)) @ t # X)"
    by (rule evict_sorted_append)
  then have 3: "sorted (map emitted_at (evict ct (sent_messages s)) @ X)" by (rule sorted_skip)
  have "sorted (map emitted_at
           (sent_messages (state_after (handle_osc_message ct t a args s) s)) @ X)"
  proof (rule handle_osc_message_buffer[where Q = "\<lambda>b. sorted (map emitted_at b @ X)"])
    show "sorted (map emitted_at (evict ct (sent_messages s)) @ X)" by (rule 3)
    show "sorted (map emitted_at
            (deque_append (a, args, kind, t) (evict ct (sent_messages s))) @ X)" for kind
      by (rule deque_append_sorted) (use 2 in \<open>simp add: emitted_at_def\<close>)
  qed
  then show ?thesis using OscIn by simp
next
  case (MidiIn t msg)
  with assms have 1: "sorted (map emitted_at (sent_messages s) @ t # X)" by simp
  have "sorted (map emitted_at
           (sent_messages (state_after (translate_and_send LogMidiToOsc t msg s) s)) @ X)"
  proof (rule translate_and_send_buffer[where Q = "\<lambda>b. sorted (map emitted_at b @ X)" and t = t])
    show "sorted (map emitted_at (sent_messages s) @ X)" using 1 by (rule sorted_skip)
    show "sorted (map emitted_at (deque_append rec (sent_messages s)) @ X)"
      if "emitted_at rec = t" for rec
      by (rule deque_append_sorted) (use 1 that in simp)
  qed
  then show ?thesis using MidiIn by (simp add: run_midi_input_msg_def)
next
  case (Played t msg)
  with assms have 1: "sorted (map emitted_at (sent_messages s) @ t # X)" by simp
  have "sorted (map emitted_at
           (sent_messages (state_after (translate_and_send LogPlayed t msg s) s)) @ X)"
  proof (rule translate_and_send_buffer[where Q = "\<lambda>b. sorted (map emitted_at b @ X)" and t = t])
    show "sorted (map emitted_at (sent_messages s) @ X)" using 1 by (rule sorted_skip)
    show "sorted (map emitted_at (deque_append rec (sent_messages s)) @ X)"
      if "emitted_at rec = t" for rec
      by (rule deque_append_sorted) (use 1 that in simp)
  qed
  then show ?thesis using Played by (simp add: play_single_midi_msg_def)
next
  case (TestNote t chan)
  with assms have 1: "sorted (map emitted_at (sent_messages s) @ t # X)" by simp
  have "sorted (map emitted_at (sent_messages (send_test_note t chan s)) @ X)"
  proof (rule send_test_note_buffer[where Q = "\<lambda>b. sorted (map emitted_at b @ X)" and t = t])
    show "sorted (map emitted_at (sent_messages s) @ X)" using 1 by (rule sorted_skip)
    show "sorted (map emitted_at (deque_append rec (sent_messages s)) @ X)"
      if "emitted_at rec = t" for rec
      by (rule deque_append_sorted) (use 1 that in simp)
  qed
  then show ?thesis using TestNote by simp
next
  case (Sweep ct)
  with assms have "sorted (map emitted_at (sent_messages s) @ ct # X)" by simp
  then have "sorted (map emitted_at (sent_messages s) @ X)" by (rule sorted_skip)
  then have "sorted (map emitted_at (evict ct (sent_messages s)) @ X)"
    by (rule evict_sorted_append)
  then show ?thesis using Sweep by (simp add: cleanup_sent_messages_def)
qed

lemma run_events_sorted:
  assumes "sorted (map emitted_at (sent_messages s) @ concat (map event_times (pre @ post)))"
  shows "sorted (map emitted_at (sent_messages (run_events pre s))
                 @ concat (map event_times post))"
  using assms
proof (induction pre arbitrary: s)
  case Nil
  then show ?case by simp
next
  case (Cons e pre)
  from Cons.prems
  have "sorted (map emitted_at (sent_messages s) @ event_times e
                @ concat (map event_times (pre @ post)))"
    by simp
  then have "sorted (map emitted_at (sent_messages (apply_event e s))
                     @ concat (map event_times (pre @ post)))"
    by (rule apply_event_sorted)
  then have "sorted (map emitted_at (sent_messages (run_events pre (apply_event e s)))
                     @ concat (map event_times post))"
    by (rule Cons.IH)
  then show ?case by simp
qed

lemma run_events_append: "run_events (pre @ post) s = run_events post (run_events pre s)"
  by (induction pre arbitrary: s) simp_all

lemma sweep_time_first: "sweep_time e = Some ct \<Longrightarrow> \<exists>ts. event_times e = ct # ts"
  by (cases e) simp_all

lemma apply_event_after_sweep:
  assumes "sweep_time e = Some ct" and "r \<in> set (sent_messages (apply_event e s))"
  shows "r \<in> set (evict ct (sent_messages s))
       \<or> (\<exists>t. event_times e = [ct, t] \<and> emitted_at r = t)"
proof (cases e)
  case (OscIn ct' t a args)
  with assms(1) have ct: "ct' = ct" by simp
  have "\<forall>r \<in> set (sent_messages (state_after (handle_osc_message ct t a args s) s)).
          r \<in> set (evict ct (sent_messages s)) \<or> emitted_at r = t"
  proof (rule handle_osc_message_buffer[where
        Q = "\<lambda>b. \<forall>r \<in> set b. r \<in> set (evict ct (sent_messages s)) \<or> emitted_at r = t"])
    show "\<forall>r\<in>set (evict ct (sent_messages s)).
            r \<in> set (evict ct (sent_messages s)) \<or> emitted_at r = t"
      by simp
    show "\<forall>r\<in>set (deque_append (a, args, kind, t) (evict ct (sent_messages s))).
            r \<in> set (evict ct (sent_messages s)) \<or> emitted_at r = t" for kind
    proof
      fix r
      assume "r \<in> set (deque_append (a, args, kind, t) (evict ct (sent_messages s)))"
      then have "r = (a, args, kind, t) \<or> r \<in> set (evict ct (sent_messages s))"
        by (rule deque_append_set)
      then show "r \<in> set (evict ct (sent_messages s)) \<or> emitted_at r = t"
        by (auto simp: emitted_at_def)
    qed
  qed
  then show ?thesis using assms(2) OscIn ct by auto
next
  case (Sweep ct')
  with assms show ?thesis by (simp add: cleanup_sent_messages_def)
qed (use assms in simp_all)

text \<open>
  Claim C3, with the condition it needs. Start with an empty buffer, as \<open>__init__\<close> leaves
  it, and run any sequence of operations on it. After every operation the buffer holds at
  most 100 records. If the clock readings the operations take, in the order they are
  taken, never decrease, then right after every sweep (the timer's, or the one the callback
  performs on entry) no record kept is more than 100 ms older than the sweep's reading,
  and the same holds when the callback returns.
\<close>

theorem history_buffer_invariant:
  assumes "sent_messages s = []" and "sorted (concat (map event_times evs))"
  shows "(\<forall>pre post. evs = pre @ post \<longrightarrow> length (sent_messages (run_events pre s)) \<le> 100)
       \<and> (\<forall>pre e post ct r. evs = pre @ e # post \<and> sweep_time e = Some ct \<longrightarrow>
            (r \<in> set (sent_messages (cleanup_sent_messages ct (run_events pre s)))
               \<longrightarrow> ct - emitted_at r \<le> 0.1)
          \<and> (r \<in> set (sent_messages (run_events (pre @ [e]) s))
               \<longrightarrow> ct - emitted_at r \<le> 0.1))"
proof (intro conjI allI impI)
  fix pre post
  show "length (sent_messages (run_events pre s)) \<le> 100"
    by (rule run_events_length) (simp add: assms(1))
next
  fix pre e post ct r
  assume a: "evs = pre @ e # post \<and> sweep_time e = Some ct"
  have "sorted (map emitted_at (sent_messages s) @ concat (map event_times (pre @ e # post)))"
    using assms a by simp
  then have "sorted (map emitted_at (sent_messages (run_events pre s))
                     @ concat (map event_times (e # post)))"
    by (rule run_events_sorted)
  then have srt: "sorted (map emitted_at (sent_messages (run_events pre s)))"
    and et: "sorted (event_times e)"
    by (simp_all add: sorted_append)
  have swept: "ct - emitted_at x \<le> 0.1"
    if "x \<in> set (evict ct (sent_messages (run_events pre s)))" for x
    using srt that by (rule evict_sorted_bound)
  {
    assume "r \<in> set (sent_messages (cleanup_sent_messages ct (run_events pre s)))"
    then have "r \<in> set (evict ct (sent_messages (run_events pre s)))"
      by (simp add: cleanup_sent_messages_def)
    then show "ct - emitted_at r \<le> 0.1" by (rule swept)
  }
  {
    assume "r \<in> set (sent_messages (run_events (pre @ [e]) s))"
    then have "r \<in> set (sent_messages (apply_event e (run_events pre s)))"
      by (simp add: run_events_append)
    then consider "r \<in> set (evict ct (sent_messages (run_events pre s)))"
      | t where "event_times e = [ct, t]" "emitted_at r = t"
      using apply_event_after_sweep a by blast
    then show "ct - emitted_at r \<le> 0.1"
    proof cases
      case 1
      then show ?thesis by (rule swept)
    next
      case 2
      with et show ?thesis by simp
    qed
  }
qed

theorem history_buffer_invariant_witness:
  "sent_messages (init_state\<lparr>osc_client := Some []\<rparr>) = []
   \<and> sorted (concat (map event_times
         [MidiIn 1 (NoteOn 0 60 64 0), MidiIn (59 / 20) (NoteOn 0 62 64 0), Sweep 3]))
   \<and> length (sent_messages (run_events
         [MidiIn 1 (NoteOn 0 60 64 0), MidiIn (59 / 20) (NoteOn 0 62 64 0), Sweep 3]
         (init_state\<lparr>osc_client := Some []\<rparr>))) \<le> 100
   \<and> sent_messages (run_events
         [MidiIn 1 (NoteOn 0 60 64 0), MidiIn (59 / 20) (NoteOn 0 62 64 0), Sweep 3]
         (init_state\<lparr>osc_client := Some []\<rparr>))
       = [(''/ch'' @ py_str 1 @ ''note'', [ArgInt 62], ''note_on'', 59 / 20)]
   \<and> 3 - emitted_at (''/ch'' @ py_str 1 @ ''note'', [ArgInt 62], ''note_on'', 59 / 20) \<le> 0.1"
proof -
  let ?s0 = "init_state\<lparr>osc_client := Some []\<rparr>"
  let ?pre = "[MidiIn 1 (NoteOn 0 60 64 0), MidiIn (59 / 20) (NoteOn 0 62 64 0)]"
  let ?evs = "[MidiIn 1 (NoteOn 0 60 64 0), MidiIn (59 / 20) (NoteOn 0 62 64 0), Sweep 3]"
  let ?r = "(''/ch'' @ py_str 1 @ ''note'', [ArgInt 62], ''note_on'', 59 / 20 :: real)"
  have a: "sent_messages ?s0 = []" by (simp add: init_state_def)
  have b: "sorted (concat (map event_times ?evs))" by simp
  have c: "sent_messages (run_events ?evs ?s0) = [?r]"
    by (simp add: init_state_def run_midi_input_msg_def translate_and_send_def state_after_def
        cleanup_sent_messages_def deque_append_def emitted_at_def Let_def)
  note inv = history_buffer_invariant[OF a b]
  have "?evs = ?evs @ []" by simp
  with inv have len: "length (sent_messages (run_events ?evs ?s0)) \<le> 100" by blast
  have "?evs = ?pre @ Sweep 3 # [] \<and> sweep_time (Sweep 3) = Some 3" by simp
  with inv have "?r \<in> set (sent_messages (run_events (?pre @ [Sweep 3]) ?s0))
                 \<longrightarrow> 3 - emitted_at ?r \<le> 0.1"
    by blast
  then have old: "3 - emitted_at ?r \<le> 0.1" using c by simp
  show ?thesis using a b len c old by blast
qed

text \<open>
  Without the condition the claim fails. The sweep stops at the first record that is young
  enough and never looks behind it. \<open>time.time()\<close> is the wall clock: when it is set back
  ten seconds between two messages of the listener, the second record carries the smaller
  stamp, and a sweep 62.5 ms after the first message keeps both, the second 10.0625 s behind
  the sweep's reading.
\<close>

lemma clock_set_back_buffer:
  "map emitted_at (sent_messages (run_events
       [MidiIn 1700000000 (NoteOn 0 60 64 0), MidiIn 1699999990 (NoteOn 0 62 64 0),
        Sweep (27200000001 / 16)]
       (init_state\<lparr>osc_client := Some []\<rparr>)))
     = [1700000000, 1699999990]"
  by (simp add: init_state_def run_midi_input_msg_def translate_and_send_def state_after_def
      cleanup_sent_messages_def deque_append_def emitted_at_def Let_def)

theorem clock_set_back_counterexample:
  "map emitted_at (sent_messages (run_events
       [MidiIn 1700000000 (NoteOn 0 60 64 0), MidiIn 1699999990 (NoteOn 0 62 64 0),
        Sweep (27200000001 / 16)]
       (init_state\<lparr>osc_client := Some []\<rparr>)))
     = [1700000000, 1699999990]
   \<and> 27200000001 / 16 - 1699999990 > (0.1 :: real)
   \<and> \<not> sorted (concat (map event_times
       [MidiIn 1700000000 (NoteOn 0 60 64 0), MidiIn 1699999990 (NoteOn 0 62 64 0),
        Sweep (27200000001 / 16)]))"
proof -
  have "27200000001 / 16 - 1699999990 > (0.1 :: real)" by simp
  moreover have "\<not> sorted (concat (map event_times
       [MidiIn 1700000000 (NoteOn 0 60 64 0), MidiIn 1699999990 (NoteOn 0 62 64 0),
        Sweep (27200000001 / 16)]))"
    by simp
  ultimately show ?thesis using clock_set_back_buffer by (intro conjI)
qed

end
